theory Spec2Isabelle
  imports Complex_Main "HOL-Library.AList"
begin

section \<open>Stage sequencer (src/ui/App.tsx)\<close>

text \<open>
  JavaScript numbers that hold integers are modelled as \<^typ>\<open>int\<close>.  The operator
  \<^verbatim>\<open>%\<close> of JavaScript truncates: the result has the sign of the dividend.
\<close>

definition js_rem :: "int \<Rightarrow> int \<Rightarrow> int" where
  "js_rem a b = sgn a * (\<bar>a\<bar> mod \<bar>b\<bar>)"

text \<open>\<^verbatim>\<open>type NamedPart = { name: string; index: number; num: number }\<close>\<close>

record namedPart =
  name :: string
  index :: nat
  num :: nat

text \<open>\<^verbatim>\<open>const totalStages = 2 + namedParts.length\<close>\<close>

definition totalStages :: "namedPart list \<Rightarrow> int" where
  "totalStages namedParts = 2 + int (length namedParts)"

text \<open>
  \<^verbatim>\<open>const loopIndex = (i) => (totalStages <= 0 ? 0 : (i % totalStages + totalStages) % totalStages)\<close>
\<close>

definition loopIndex :: "int \<Rightarrow> int \<Rightarrow> int" where
  "loopIndex n i = (if n \<le> 0 then 0 else js_rem (js_rem i n + n) n)"

text \<open>
  \<^verbatim>\<open>const nextStage = () => setStage(s => loopIndex(s + 1))\<close> and
  \<^verbatim>\<open>const prevStage = () => setStage(s => loopIndex(s - 1))\<close>, as functions of the stage.
\<close>

definition nextStage :: "namedPart list \<Rightarrow> int \<Rightarrow> int" where
  "nextStage namedParts s = loopIndex (totalStages namedParts) (s + 1)"

definition prevStage :: "namedPart list \<Rightarrow> int \<Rightarrow> int" where
  "prevStage namedParts s = loopIndex (totalStages namedParts) (s - 1)"

section \<open>Named sections (src/ui/App.tsx, parseNamedParts)\<close>

subsection \<open>Strings, whitespace and digits\<close>

text \<open>
  Part names are JavaScript strings; they are modelled as \<^typ>\<open>string\<close>, one \<^typ>\<open>char\<close>
  per code unit below 256.  \<^verbatim>\<open>\s\<close> and \<^verbatim>\<open>String.prototype.trim\<close> use the same set of
  white space and line terminators: in this range TAB, LF, VT, FF, CR, SPACE and NBSP.
  \<^verbatim>\<open>\d\<close> is \<^verbatim>\<open>[0-9]\<close>.
\<close>

definition isWhiteSpace :: "char \<Rightarrow> bool" where
  "isWhiteSpace c = (of_char c \<in> {9, 10, 11, 12, 13, 32, 160 :: nat})"

definition isDigit :: "char \<Rightarrow> bool" where
  "isDigit c = (48 \<le> (of_char c :: nat) \<and> (of_char c :: nat) \<le> 57)"

definition trim :: "string \<Rightarrow> string" where
  "trim s = rev (dropWhile isWhiteSpace (rev (dropWhile isWhiteSpace s)))"

text \<open>
  The flag \<^verbatim>\<open>i\<close> compares characters after canonicalisation to upper case.  The letters
  of the pattern are ASCII, and a character outside ASCII never canonicalises to an ASCII
  one, so only the ASCII letters need to be folded.
\<close>

definition canonicalize :: "char \<Rightarrow> char" where
  "canonicalize c =
     (case map_of (zip ''abcdefghijklmnopqrstuvwxyz'' ''ABCDEFGHIJKLMNOPQRSTUVWXYZ'') c of
        Some u \<Rightarrow> u
      | None \<Rightarrow> c)"

subsection \<open>The pattern, as a backtracking matcher\<close>

text \<open>
  \<^verbatim>\<open>const rx = /^(?:\s*(?:sec|se|section)\s*)(\d+)\s*$/i\<close>

  Each piece of the pattern maps the rest of the input to the list of the rests it can
  leave, in the order in which the backtracking engine tries them: a greedy repetition
  leaves the shortest rest first, an alternation tries its branches from left to right.
\<close>

fun star :: "(char \<Rightarrow> bool) \<Rightarrow> string \<Rightarrow> string list" where
  "star P [] = [[]]"
| "star P (c # cs) = (if P c then star P cs @ [c # cs] else [c # cs])"

definition lit_ci :: "string \<Rightarrow> string \<Rightarrow> string list" where
  "lit_ci w s =
     (if length w \<le> length s \<and> map canonicalize (take (length w) s) = map canonicalize w
      then [drop (length w) s] else [])"

definition token :: "string \<Rightarrow> string list" where
  "token s = lit_ci ''sec'' s @ lit_ci ''se'' s @ lit_ci ''section'' s"

text \<open>\<^verbatim>\<open>(\d+)\<close>: at least one digit, with the text consumed as the capture.\<close>

definition digits1 :: "string \<Rightarrow> (string \<times> string) list" where
  "digits1 s = [(take (length s - length r) s, r). r \<leftarrow> star isDigit s, length r < length s]"

text \<open>
  All the ways the whole pattern matches the whole input (the anchors \<^verbatim>\<open>^\<close> and \<^verbatim>\<open>$\<close>),
  each with its capture; \<^verbatim>\<open>rx.exec\<close> returns the first, \<^verbatim>\<open>rx.test\<close> says whether there
  is one.
\<close>

definition rx_matches :: "string \<Rightarrow> string list" where
  "rx_matches s =
     [d. r1 \<leftarrow> star isWhiteSpace s, r2 \<leftarrow> token r1, r3 \<leftarrow> star isWhiteSpace r2,
         (d, r4) \<leftarrow> digits1 r3, r5 \<leftarrow> star isWhiteSpace r4, r5 = []]"

definition rx_exec :: "string \<Rightarrow> string option" where
  "rx_exec s = (case rx_matches s of [] \<Rightarrow> None | d # _ \<Rightarrow> Some d)"

definition rx_test :: "string \<Rightarrow> bool" where
  "rx_test s = (rx_exec s \<noteq> None)"

subsection \<open>parseInt and Number.isFinite\<close>

text \<open>
  \<^verbatim>\<open>parseInt(m[1], 10)\<close> reads a string of decimal digits as an integer and returns it as
  a Number, an IEEE 754 double: the integer is rounded to 53 significant bits, to nearest
  with ties to even, and becomes \<^verbatim>\<open>Infinity\<close> from \<open>2^1024 - 2^970\<close> on.  The result is
  \<^term>\<open>None\<close> for \<^verbatim>\<open>Infinity\<close> and the value of the double otherwise.
\<close>

definition digit_value :: "char \<Rightarrow> nat" where
  "digit_value c = of_char c - 48"

definition digits_value :: "string \<Rightarrow> nat" where
  "digits_value ds = foldl (\<lambda>a c. 10 * a + digit_value c) 0 ds"

fun bit_length :: "nat \<Rightarrow> nat" where
  "bit_length n = (if n = 0 then 0 else Suc (bit_length (n div 2)))"

declare bit_length.simps [simp del]

definition to_double :: "nat \<Rightarrow> nat option" where
  "to_double v =
     (if v < 2 ^ 53 then Some v
      else let e = bit_length v - 53;
               q = v div 2 ^ e;
               r = v mod 2 ^ e;
               h = 2 ^ (e - 1);
               q' = (if h < r \<or> (r = h \<and> odd q) then q + 1 else q)
           in if q' * 2 ^ e < 2 ^ 1024 then Some (q' * 2 ^ e) else None)"

definition parseInt10 :: "string \<Rightarrow> nat option" where
  "parseInt10 ds = to_double (digits_value ds)"

subsection \<open>parseNamedParts\<close>

text \<open>
  The callback of \<^verbatim>\<open>allNames.forEach((name, idx) => ...)\<close>: the pick it pushes, if any.
  \<^verbatim>\<open>
    const m = rx.exec((name || '').trim())
    if (!m) return
    const num = parseInt(m[1], 10)
    if (Number.isFinite(num)) picks.push({ name, index: idx, num })
  \<close>
\<close>

definition pick :: "string \<Rightarrow> nat \<Rightarrow> namedPart option" where
  "pick nm idx =
     (case rx_exec (trim nm) of
        None \<Rightarrow> None
      | Some d \<Rightarrow>
          (case parseInt10 d of
             None \<Rightarrow> None
           | Some n \<Rightarrow> Some \<lparr>name = nm, index = idx, num = n\<rparr>))"

definition picks :: "string list \<Rightarrow> namedPart list" where
  "picks allNames = List.map_filter (\<lambda>(idx, nm). pick nm idx) (enumerate 0 allNames)"

text \<open>
  \<^verbatim>\<open>picks.sort((a, b) => a.num - b.num)\<close>.  \<^verbatim>\<open>Array.prototype.sort\<close> is stable and, for a
  consistent comparator, puts \<open>a\<close> before \<open>b\<close> whenever the comparator is negative; it is
  modelled as the stable insertion sort by the comparator.
\<close>

fun insert_by :: "('a \<Rightarrow> 'a \<Rightarrow> int) \<Rightarrow> 'a \<Rightarrow> 'a list \<Rightarrow> 'a list" where
  "insert_by cmp x [] = [x]"
| "insert_by cmp x (y # ys) =
     (if cmp x y \<le> 0 then x # y # ys else y # insert_by cmp x ys)"

definition array_sort :: "('a \<Rightarrow> 'a \<Rightarrow> int) \<Rightarrow> 'a list \<Rightarrow> 'a list" where
  "array_sort cmp xs = foldr (insert_by cmp) xs []"

definition by_num :: "namedPart \<Rightarrow> namedPart \<Rightarrow> int" where
  "by_num a b = int (num a) - int (num b)"

definition parseNamedParts :: "string list \<Rightarrow> namedPart list" where
  "parseNamedParts allNames = array_sort by_num (picks allNames)"

text \<open>
  The order of the specification: ascending by section number, ties by the position in
  the list of names (the traversal order).
\<close>

definition lex_before :: "namedPart \<Rightarrow> namedPart \<Rightarrow> bool" where
  "lex_before a b = (num a < num b \<or> (num a = num b \<and> index a < index b))"

text \<open>
  The pattern in the words of the specification: optional white space, one of the tokens
  \<^verbatim>\<open>sec\<close>, \<^verbatim>\<open>se\<close>, \<^verbatim>\<open>section\<close> in any letter case, optional white space, a non-empty run of
  decimal digits \<open>ds\<close>, optional white space, and nothing else.
\<close>

definition is_token :: "string \<Rightarrow> bool" where
  "is_token tok = (map canonicalize tok \<in> {''SEC'', ''SE'', ''SECTION''})"

definition section_text :: "string \<Rightarrow> string \<Rightarrow> bool" where
  "section_text s ds =
     (\<exists>w1 tok w2 w3.
        s = w1 @ tok @ w2 @ ds @ w3 \<and> list_all isWhiteSpace w1 \<and> is_token tok
        \<and> list_all isWhiteSpace w2 \<and> ds \<noteq> [] \<and> list_all isDigit ds
        \<and> list_all isWhiteSpace w3)"

section \<open>JavaScript numbers\<close>

text \<open>
  Opacities, times and coordinates are JavaScript numbers, IEEE 754 doubles; \<^verbatim>\<open>NaN\<close> and
  the infinities are outside the model.

  The opacities of the materials are only compared, selected by \<^verbatim>\<open>Math.min\<close> and
  \<^verbatim>\<open>Math.max\<close> and stored, and this is exact on doubles.  They are modelled as
  \<^typ>\<open>real\<close>, and a decimal literal that the source compares them with or stores in them
  (\<open>0.1\<close>, \<open>0.98\<close>, \<open>0.08\<close>) is written as it is and stands for the double it denotes:
  no double lies strictly between a literal and the double nearest to it, so the
  comparisons come out as in the program.

  The times of the animation and the coordinates of the boxes are computed.  There a
  finite double is modelled by the real number it is, and a sum, a difference, a product
  or a quotient is the exact result rounded to the nearest double, ties to even: 53
  significant bits, with the least exponent \<open>- 1022\<close> (below it the doubles are the multiples
  of \<open>2^-1074\<close>).  The exponent of \<open>round_double\<close> is not bounded above: a result of
  magnitude \<open>2^1024\<close> or more stands for an overflow, which is \<^verbatim>\<open>Infinity\<close> in the
  program.  A literal that is no double (\<^verbatim>\<open>1e-6\<close>, \<^verbatim>\<open>1.30\<close>) is written with its rounding.
\<close>

definition round_even :: "real \<Rightarrow> int" where
  "round_even y =
     (let f = \<lfloor>y\<rfloor> in
      if y - of_int f < 1 / 2 then f
      else if 1 / 2 < y - of_int f then f + 1
      else if even f then f else f + 1)"

definition exponent :: "real \<Rightarrow> int" where
  "exponent x = max (- 1022) \<lfloor>log 2 \<bar>x\<bar>\<rfloor>"

definition round_double :: "real \<Rightarrow> real" where
  "round_double x =
     (if x = 0 then 0
      else of_int (round_even (x / 2 powr of_int (exponent x - 52))) * 2 powr of_int (exponent x - 52))"


text \<open>The operators \<^verbatim>\<open>+\<close>, \<^verbatim>\<open>-\<close>, \<^verbatim>\<open>*\<close> and \<^verbatim>\<open>/\<close> on numbers.\<close>

definition dadd :: "real \<Rightarrow> real \<Rightarrow> real" where
  "dadd x y = round_double (x + y)"


definition dmul :: "real \<Rightarrow> real \<Rightarrow> real" where
  "dmul x y = round_double (x * y)"


text \<open>
  The dolly factor of the wheel handler, \<^verbatim>\<open>Math.exp((e.deltaY / 100) * 0.15)\<close>, is
  recorded as the real number that the program approximates; nothing below depends on its
  value.
\<close>

section \<open>Scene graph and materials (src/viewer.ts, src/viewer.mobile.ts)\<close>

type_synonym vec3 = "real \<times> real \<times> real"

text \<open>
  A \<^verbatim>\<open>THREE.Material\<close>, with the entry that \<^verbatim>\<open>savedMatProps\<close> (a WeakMap keyed by the
  material) holds for it: \<^verbatim>\<open>{ transparent, opacity }\<close>, or none.
\<close>

record material =
  opacity :: real
  transparent :: bool
  depthWrite :: bool
  colorWrite :: bool
  saved :: "(bool \<times> real) option"

text \<open>
  A \<^verbatim>\<open>THREE.Object3D\<close>: its name, its \<^verbatim>\<open>visible\<close> flag, whether it is a mesh, its
  materials (\<^verbatim>\<open>o.material\<close> is one material, an array of them, or absent: a list), the
  world-space bounding box of its own geometry if it has one, and its children.
\<close>

datatype object3d =
  Object3D (obj_name: string) (obj_visible: bool) (isMesh: bool)
    (obj_material: "material list") (geometryBox: "(vec3 \<times> vec3) option")
    (children: "object3d list")

text \<open>\<^verbatim>\<open>o.traverse(f)\<close> visits \<open>o\<close> and then its descendants, depth first and in order.\<close>

fun traverse :: "object3d \<Rightarrow> object3d list" where
  "traverse (Object3D n v m mats g cs) = Object3D n v m mats g cs # concat (map traverse cs)"

text \<open>
  The shape of every material pass of the viewer:
  \<^verbatim>\<open>
    root.traverse((o) => {
      if (!o.isMesh) return
      if (Array.isArray(o.material)) o.material = o.material.map(f)
      else if (o.material) o.material = f(o.material)
    })
  \<close>
\<close>

fun map_mesh_materials :: "(material \<Rightarrow> material) \<Rightarrow> object3d \<Rightarrow> object3d" where
  "map_mesh_materials f (Object3D n v m mats g cs) =
     Object3D n v m (if m then map f mats else mats) g (map (map_mesh_materials f) cs)"

definition mesh_materials :: "object3d \<Rightarrow> material list" where
  "mesh_materials p = concat (map obj_material (filter isMesh (traverse p)))"

definition set_visible :: "bool \<Rightarrow> object3d \<Rightarrow> object3d" where
  "set_visible b p =
     Object3D (obj_name p) b (isMesh p) (obj_material p) (geometryBox p) (children p)"

definition set_name :: "string \<Rightarrow> object3d \<Rightarrow> object3d" where
  "set_name n p =
     Object3D n (obj_visible p) (isMesh p) (obj_material p) (geometryBox p) (children p)"

subsection \<open>cloneMaterials\<close>

text \<open>
  \<^verbatim>\<open>
    const wrap = (m) => {
      const baseTransparent = m.transparent ?? false
      const raw = m.opacity
      const baseOpacity = (typeof raw === 'number' && raw > 0.1) ? raw : 1
      const c = m.clone()
      c.transparent = true
      c.opacity = baseOpacity
      c.depthWrite = true
      savedMatProps.set(c, { transparent: baseTransparent, opacity: baseOpacity })
      return c
    }
  \<close>
\<close>

definition baseOpacity :: "material \<Rightarrow> real" where
  "baseOpacity m = (if opacity m > 0.1 then opacity m else 1)"

definition wrap :: "material \<Rightarrow> material" where
  "wrap m =
     m\<lparr>transparent := True, opacity := baseOpacity m, depthWrite := True,
       saved := Some (transparent m, baseOpacity m)\<rparr>"

definition cloneMaterials :: "object3d \<Rightarrow> object3d" where
  "cloneMaterials rootObj = map_mesh_materials wrap rootObj"

subsection \<open>isolatePart and applyVisibilityMask\<close>

text \<open>
  \<^verbatim>\<open>
    function isolatePart(index: number | null, dimOpacity = 0.01) {
      const dim = Math.max(0.08, Math.min(0.5, dimOpacity))
      parts.forEach((p, i) => {
        p.visible = true
        p.traverse((o) => {
          if (!o.isMesh) return
          const apply = (m) => {
            const saved = savedMatProps.get(m)
            const base = saved?.opacity ?? 1
            m.transparent = true
            m.opacity = (index === null || i === index) ? Math.max(0.98, base) : dim
            m.depthWrite = true
            m.colorWrite = true
          }
          if (Array.isArray(o.material)) o.material.forEach(apply)
          else if (o.material) apply(o.material)
        })
      })
    }
  \<close>
  The index \<open>idx\<close> is \<^verbatim>\<open>null\<close> or an integer.
\<close>

definition base :: "material \<Rightarrow> real" where
  "base m = (case saved m of Some (t, op) \<Rightarrow> op | None \<Rightarrow> 1)"

definition isolate_apply :: "int option \<Rightarrow> nat \<Rightarrow> real \<Rightarrow> material \<Rightarrow> material" where
  "isolate_apply idx i dim' m =
     m\<lparr>transparent := True,
       opacity := (if idx = None \<or> idx = Some (int i) then max 0.98 (base m) else dim'),
       depthWrite := True, colorWrite := True\<rparr>"

definition isolatePart :: "int option \<Rightarrow> real \<Rightarrow> object3d list \<Rightarrow> object3d list" where
  "isolatePart idx dimOpacity ps =
     (let dim' = max 0.08 (min 0.5 dimOpacity)
      in map (\<lambda>(i, p). map_mesh_materials (isolate_apply idx i dim') (set_visible True p))
           (enumerate 0 ps))"

text \<open>
  \<^verbatim>\<open>
    function applyVisibilityMask(indices: number[] | null) {
      const keep = indices ? new Set(indices) : null
      parts.forEach((p, i) => {
        const allow = keep ? keep.has(i) : true
        p.visible = allow
        p.traverse((o) => {
          if (!o.isMesh || !o.material) return
          const use = (m) => {
            const saved = savedMatProps.get(m)
            const base = saved?.opacity ?? 1
            m.transparent = true
            m.opacity = allow ? Math.max(0.98, base) : 0.0
            m.depthWrite = true
            m.colorWrite = allow
          }
          if (Array.isArray(o.material)) o.material.forEach(use)
          else use(o.material)
        })
      })
    }
  \<close>
\<close>

definition mask_use :: "bool \<Rightarrow> material \<Rightarrow> material" where
  "mask_use allow m =
     m\<lparr>transparent := True, opacity := (if allow then max 0.98 (base m) else 0),
       depthWrite := True, colorWrite := allow\<rparr>"

definition applyVisibilityMask :: "int list option \<Rightarrow> object3d list \<Rightarrow> object3d list" where
  "applyVisibilityMask indices ps =
     map (\<lambda>(i, p).
            let allow = (case indices of None \<Rightarrow> True | Some keep \<Rightarrow> int i \<in> set keep)
            in map_mesh_materials (mask_use allow) (set_visible allow p))
       (enumerate 0 ps)"


subsection \<open>Bounding boxes\<close>

text \<open>
  \<^verbatim>\<open>new THREE.Box3().setFromObject(o)\<close> is the union of the world-space boxes of the
  geometries of \<open>o\<close> and its descendants; \<^term>\<open>None\<close> is the empty box.
  \<^verbatim>\<open>box.getCenter(out)\<close> is the origin for the empty box and otherwise
  \<^verbatim>\<open>out.addVectors(this.min, this.max).multiplyScalar(0.5)\<close>.
\<close>

type_synonym box3 = "(vec3 \<times> vec3) option"

fun box_union :: "box3 \<Rightarrow> box3 \<Rightarrow> box3" where
  "box_union None b = b"
| "box_union a None = a"
| "box_union (Some ((x1, y1, z1), (X1, Y1, Z1))) (Some ((x2, y2, z2), (X2, Y2, Z2))) =
     Some ((min x1 x2, min y1 y2, min z1 z2), (max X1 X2, max Y1 Y2, max Z1 Z2))"

definition setFromObject :: "object3d \<Rightarrow> box3" where
  "setFromObject p = foldl box_union None (map geometryBox (traverse p))"

fun getCenter :: "box3 \<Rightarrow> vec3" where
  "getCenter None = (0, 0, 0)"
| "getCenter (Some ((x, y, z), (X, Y, Z))) =
     (dmul (dadd x X) 0.5, dmul (dadd y Y) 0.5, dmul (dadd z Z) 0.5)"

text \<open>
  \<^verbatim>\<open>
    function getPartWorldCenter(index: number, out = new THREE.Vector3()) {
      const p = parts[index]
      const tmp = new THREE.Box3().setFromObject(p)
      return tmp.getCenter(out)
    }
  \<close>
  The callers pass an index in range; out of range \<^verbatim>\<open>parts[index]\<close> is undefined and
  \<^verbatim>\<open>setFromObject\<close> throws.
\<close>

definition getPartWorldCenter :: "object3d list \<Rightarrow> nat \<Rightarrow> vec3 option" where
  "getPartWorldCenter ps i = (if i < length ps then Some (getCenter (setFromObject (ps ! i))) else None)"

subsection \<open>gatherParts, promoteSectionNamesToParts and the part names\<close>

text \<open>
  \<^verbatim>\<open>
    function gatherParts(root: THREE.Object3D): THREE.Object3D[] {
      const set = new Set<THREE.Object3D>()
      root.children.forEach(ch => {
        let hasMesh = false
        ch.traverse(o => { if (o.isMesh) hasMesh = true })
        if (hasMesh) set.add(ch)
      })
      if (set.size === 0) {
        root.traverse(o => { if (o.isMesh && o.parent) set.add(o.parent) })
      }
      return Array.from(set)
    }
  \<close>
  The second pass collects the parents of the meshes; \<open>parent\<close> is the parent of the root
  at the time of the call (none in the desktop viewer, the pivot in the mobile one).
\<close>

definition hasMesh :: "object3d \<Rightarrow> bool" where
  "hasMesh ch = list_ex isMesh (traverse ch)"

fun mesh_parents :: "object3d option \<Rightarrow> object3d \<Rightarrow> object3d list" where
  "mesh_parents parent (Object3D n v m mats g cs) =
     (if m then (case parent of Some p \<Rightarrow> [p] | None \<Rightarrow> []) else [])
     @ concat (map (mesh_parents (Some (Object3D n v m mats g cs))) cs)"

definition gatherParts :: "object3d option \<Rightarrow> object3d \<Rightarrow> object3d list" where
  "gatherParts parent rootObj =
     (let direct = filter hasMesh (children rootObj)
      in if direct = [] then remdups (mesh_parents parent rootObj) else direct)"

text \<open>
  \<^verbatim>\<open>
    function promoteSectionNamesToParts(partsArr: THREE.Object3D[]) {
      const rx = /^(?:\s*(?:sec|se|section)\s*)(\d+)\s*$/i
      partsArr.forEach(p => {
        let chosen: string | null = null
        if (typeof p.name === 'string' && rx.test(p.name.trim())) {
          chosen = p.name
        } else {
          p.traverse(o => {
            if (chosen) return
            const n = (o.name || '').trim()
            if (n && rx.test(n)) chosen = n
          })
        }
        if (chosen) p.name = chosen
      })
    }
  \<close>
\<close>

definition chosen_name :: "object3d \<Rightarrow> string option" where
  "chosen_name p =
     (if rx_test (trim (obj_name p)) then Some (obj_name p)
      else (case filter (\<lambda>n. n \<noteq> [] \<and> rx_test n) (map (\<lambda>d. trim (obj_name d)) (traverse p)) of
              [] \<Rightarrow> None
            | n # _ \<Rightarrow> Some n))"

definition promote :: "object3d \<Rightarrow> object3d" where
  "promote p = (case chosen_name p of Some n \<Rightarrow> (if n \<noteq> [] then set_name n p else p) | None \<Rightarrow> p)"

definition promoteSectionNamesToParts :: "object3d list \<Rightarrow> object3d list" where
  "promoteSectionNamesToParts partsArr = map promote partsArr"

text \<open>Decimal numerals, for \<^verbatim>\<open>`Part ${i + 1}`\<close> and \<^verbatim>\<open>`Clip_${i}`\<close>.\<close>

fun show_nat :: "nat \<Rightarrow> string" where
  "show_nat n =
     (if n < 10 then [char_of (48 + n)] else show_nat (n div 10) @ [char_of (48 + n mod 10)])"

declare show_nat.simps [simp del]

text \<open>\<^verbatim>\<open>partNames = parts.map((p, i) => p.name || `Part ${i + 1}`)\<close>\<close>

definition part_names :: "object3d list \<Rightarrow> string list" where
  "part_names ps =
     map (\<lambda>(i, p). if obj_name p \<noteq> [] then obj_name p else ''Part '' @ show_nat (i + 1))
       (enumerate 0 ps)"

text \<open>The registry of the desktop viewer and of the mobile viewer, as \<^verbatim>\<open>loadGLB\<close> builds it.\<close>

definition registry_desktop :: "object3d \<Rightarrow> object3d list \<times> string list" where
  "registry_desktop rootObj = (let ps = gatherParts None rootObj in (ps, part_names ps))"

definition registry_mobile :: "object3d \<Rightarrow> object3d \<Rightarrow> object3d list \<times> string list" where
  "registry_mobile pivotObj rootObj =
     (let ps = promoteSectionNamesToParts (gatherParts (Some pivotObj) rootObj)
      in (ps, part_names ps))"


section \<open>Animation actions (three.js AnimationAction and AnimationMixer, as the viewer uses them)\<close>

text \<open>
  The viewer drives the clips of the asset through \<^verbatim>\<open>THREE.AnimationAction\<close> objects.
  The fields are those the viewer reads or writes; \<open>scheduled\<close> says that \<^verbatim>\<open>play()\<close> has
  activated the action in its mixer, and \<open>clip_duration\<close> is \<^verbatim>\<open>getClip().duration\<close>.
\<close>

datatype loop_mode = LoopOnce | LoopRepeat | LoopPingPong

record action =
  time :: real
  timeScale :: real
  paused :: bool
  enabled :: bool
  loop :: loop_mode
  clampWhenFinished :: bool
  weight :: real
  loopCount :: int
  scheduled :: bool
  clip_duration :: real

text \<open>\<^verbatim>\<open>mixer.clipAction(clip)\<close>: a new action with the defaults of three.js.\<close>

definition clipAction :: "real \<Rightarrow> action" where
  "clipAction d =
     \<lparr>time = 0, timeScale = 1, paused = False, enabled = True, loop = LoopRepeat,
      clampWhenFinished = False, weight = 1, loopCount = - 1, scheduled = False,
      clip_duration = d\<rparr>"

definition setLoop :: "loop_mode \<Rightarrow> action \<Rightarrow> action" where
  "setLoop mode a = a\<lparr>loop := mode\<rparr>"

definition reset :: "action \<Rightarrow> action" where
  "reset a = a\<lparr>paused := False, enabled := True, time := 0, loopCount := - 1\<rparr>"

definition setEffectiveWeight :: "real \<Rightarrow> action \<Rightarrow> action" where
  "setEffectiveWeight w a = a\<lparr>weight := w\<rparr>"

definition setEffectiveTimeScale :: "real \<Rightarrow> action \<Rightarrow> action" where
  "setEffectiveTimeScale ts a = a\<lparr>timeScale := ts\<rparr>"

definition play :: "action \<Rightarrow> action" where
  "play a = a\<lparr>scheduled := True\<rparr>"





section \<open>The viewer state\<close>

text \<open>
  The module-level variables of the viewer that the modelled operations read or write.
  \<open>scene\<close> is \<^term>\<open>None\<close> for \<^verbatim>\<open>null\<close> and otherwise holds the children of the scene
  that \<^verbatim>\<open>loadGLB\<close> adds and removes; \<open>camera\<close>, \<open>controls\<close> and \<open>mixer\<close> say whether the
  object exists.  \<open>zoomAnimRAF\<close> is the smooth dolly in flight, if any, and \<open>dollyLog\<close>
  records every smooth dolly that was started (factor and duration).  The parts are
  references into the scene graph in the source; here \<open>parts\<close> holds the part subtrees
  themselves, and the operations on parts update them there.
\<close>

datatype variant = Desktop | Mobile

record viewer =
  variant :: variant
  scene :: "object3d list option"
  camera :: bool
  controls :: bool
  currentModel :: "object3d option"
  pivot :: "object3d option"
  parts :: "object3d list"
  partNames :: "string list"
  bbox :: box3
  centroid :: vec3
  target_desired :: vec3
  mixer :: bool
  actions :: "(string \<times> action) list"
  clipNames :: "string list"
  clipDurations :: "(string \<times> real) list"
  playbackSpeed :: real
  explodeState :: nat
  explodedZoomApplied :: bool
  zoomAnimRAF :: "(real \<times> real) option"
  dollyLog :: "(real \<times> real) list"

definition EXPLODED_ZOOM_FACTOR :: "variant \<Rightarrow> real" where
  "EXPLODED_ZOOM_FACTOR v = (case v of Desktop \<Rightarrow> round_double 1.30 | Mobile \<Rightarrow> 1.25)"

definition EXPLODED_ZOOM_MS :: "variant \<Rightarrow> real" where
  "EXPLODED_ZOOM_MS v = (case v of Desktop \<Rightarrow> 420 | Mobile \<Rightarrow> 380)"

text \<open>
  \<^verbatim>\<open>
    function dollyScaleSmooth(k: number, ms = 420) {
      if (!camera || !controls) return
      if (_zoomAnimRAF !== null) { cancelAnimationFrame(_zoomAnimRAF); _zoomAnimRAF = null }
      ...
      _zoomAnimRAF = requestAnimationFrame(step)
    }
    function applyExplodedZoom() {
      if (_explodedZoomApplied) return
      dollyScaleSmooth(EXPLODED_ZOOM_FACTOR, EXPLODED_ZOOM_MS)
      _explodedZoomApplied = true
    }
    function clearExplodedZoom() {
      if (!_explodedZoomApplied) return
      dollyScaleSmooth(1 / EXPLODED_ZOOM_FACTOR, EXPLODED_ZOOM_MS)
      _explodedZoomApplied = false
    }
  \<close>
\<close>

definition dollyScaleSmooth :: "real \<Rightarrow> real \<Rightarrow> viewer \<Rightarrow> viewer" where
  "dollyScaleSmooth k ms s =
     (if \<not> camera s \<or> \<not> controls s then s
      else s\<lparr>zoomAnimRAF := Some (k, ms), dollyLog := dollyLog s @ [(k, ms)]\<rparr>)"

definition applyExplodedZoom :: "viewer \<Rightarrow> viewer" where
  "applyExplodedZoom s =
     (if explodedZoomApplied s then s
      else (dollyScaleSmooth (EXPLODED_ZOOM_FACTOR (variant s)) (EXPLODED_ZOOM_MS (variant s)) s)
             \<lparr>explodedZoomApplied := True\<rparr>)"


subsection \<open>setExplode\<close>

text \<open>
  \<^verbatim>\<open>const dur = clipDurations[name] ?? a.getClip().duration\<close>.  The names are the own keys
  of \<^verbatim>\<open>actions\<close>; \<^verbatim>\<open>loadGLB\<close> gives each of them an own entry in \<^verbatim>\<open>clipDurations\<close>.
\<close>

definition dur :: "viewer \<Rightarrow> string \<Rightarrow> action \<Rightarrow> real" where
  "dur s n a = (case map_of (clipDurations s) n of Some d \<Rightarrow> d | None \<Rightarrow> clip_duration a)"



definition snap_end :: "real \<Rightarrow> action \<Rightarrow> action" where
  "snap_end d a =
     (setEffectiveTimeScale 1 (setEffectiveWeight 1
       ((reset ((setLoop LoopOnce (a\<lparr>enabled := True\<rparr>))\<lparr>clampWhenFinished := True\<rparr>))
          \<lparr>paused := True\<rparr>)))\<lparr>time := d\<rparr>"

definition play_forward :: "action \<Rightarrow> action" where
  "play_forward a =
     play ((setEffectiveTimeScale 1 (setEffectiveWeight 1
       (reset ((setLoop LoopOnce (a\<lparr>enabled := True\<rparr>))\<lparr>clampWhenFinished := True\<rparr>))))
         \<lparr>paused := False\<rparr>)"


definition for_each_action :: "(string \<Rightarrow> action \<Rightarrow> action) \<Rightarrow> viewer \<Rightarrow> viewer" where
  "for_each_action f s = s\<lparr>actions := map (\<lambda>(n, a). (n, f n a)) (actions s)\<rparr>"





subsection \<open>Notions for the properties of setExplode\<close>


text \<open>
  The course of such a clip of duration \<open>d\<close> over the mixer steps \<open>xs\<close>, as its time and
  whether it has stopped: a stopped clip stays where it is, a zero step changes nothing,
  and otherwise the time advances by the step, rounded, and the clip stops at exactly \<open>d\<close>
  as soon as the sum reaches \<open>d\<close>.
\<close>

fun track :: "real \<Rightarrow> real list \<Rightarrow> real \<times> bool \<Rightarrow> real \<times> bool" where
  "track d [] st = st"
| "track d (x # xs) (t, stopped) =
     track d xs
       (if stopped \<or> x = 0 then (t, stopped)
        else if d \<le> dadd t x then (d, True)
        else (dadd t x, False))"

text \<open>The mixer steps of the frames \<open>dts\<close>.\<close>

definition steps :: "viewer \<Rightarrow> real list \<Rightarrow> real list" where
  "steps s dts = map (\<lambda>dt. dmul dt (playbackSpeed s)) dts"

text \<open>The clip durations of the table agree with the clips (as \<^verbatim>\<open>loadGLB\<close> sets them).\<close>

definition durations_consistent :: "viewer \<Rightarrow> bool" where
  "durations_consistent s =
     list_all (\<lambda>(n, a). dur s n a = clip_duration a \<and> 0 \<le> clip_duration a) (actions s)"

text \<open>
  The table of clip durations lists the durations of the clips of the action table, name
  by name.
\<close>

definition tables_agree :: "viewer \<Rightarrow> bool" where
  "tables_agree s =
     (clipDurations s = map (\<lambda>(n, a). (n, clip_duration a)) (actions s)
      \<and> distinct (map fst (actions s))
      \<and> list_all (\<lambda>(n, a). 0 \<le> clip_duration a) (actions s))"

subsection \<open>setOrbitTargetTo\<close>

text \<open>
  \<^verbatim>\<open>
    setOrbitTargetTo: (index: number | null) => {
      if (!controls) return
      if (index === null || index < 0 || index >= parts.length) {
        target_desired.copy(centroid)
      } else {
        const c = getPartWorldCenter(index)
        target_desired.copy(c)
      }
    }
  \<close>
  The result is an error when \<^verbatim>\<open>getPartWorldCenter\<close> throws.
\<close>

datatype error = TypeError | NoScene | LoaderFailed

definition setOrbitTargetTo :: "int option \<Rightarrow> viewer \<Rightarrow> error + viewer" where
  "setOrbitTargetTo idx s =
     (if \<not> controls s then Inr s
      else case idx of
        None \<Rightarrow> Inr (s\<lparr>target_desired := centroid s\<rparr>)
      | Some i \<Rightarrow>
          if i < 0 \<or> i \<ge> int (length (parts s)) then Inr (s\<lparr>target_desired := centroid s\<rparr>)
          else (case getPartWorldCenter (parts s) (nat i) of
                  None \<Rightarrow> Inl TypeError
                | Some c \<Rightarrow> Inr (s\<lparr>target_desired := c\<rparr>)))"


subsection \<open>loadGLB and dispose\<close>

text \<open>
  What \<^verbatim>\<open>GLTFLoader.load\<close> hands to its callbacks: an error, or a decoded asset with
  \<^verbatim>\<open>gltf.scene\<close>, \<^verbatim>\<open>gltf.scenes\<close> and \<^verbatim>\<open>gltf.animations\<close>.
\<close>

record clip =
  clip_name :: string
  duration :: real

record gltf =
  gltf_scene :: "object3d option"
  scenes :: "object3d list"
  animations :: "clip list"

datatype loaded = LoadFailed | Loaded gltf

datatype outcome = Resolved | Rejected error

text \<open>\<^verbatim>\<open>const root = gltf.scene || (gltf.scenes && gltf.scenes[0])\<close>\<close>

definition scene_root :: "gltf \<Rightarrow> object3d option" where
  "scene_root g =
     (case gltf_scene g of
        Some r \<Rightarrow> Some r
      | None \<Rightarrow> (case scenes g of [] \<Rightarrow> None | r # _ \<Rightarrow> Some r))"

text \<open>
  The start of \<^verbatim>\<open>loadGLB\<close>, before the loader runs:
  \<^verbatim>\<open>
    if (_zoomAnimRAF !== null) { cancelAnimationFrame(_zoomAnimRAF); _zoomAnimRAF = null }
    _explodedZoomApplied = false
    // Clear previous model
    if (currentModel) { scene.remove(currentModel); ...dispose...; currentModel = null }
    if (mixer) { mixer.stopAllAction(); mixer = null }
    actions = {}; activeAction = null; clipNames = []; clipDurations = {}
    parts = []; partNames = []
    explodeState = 0
  \<close>
  The mobile viewer removes its pivot instead:
  \<^verbatim>\<open>
    if (pivot) { ...dispose...; scene.remove(pivot); pivot = null }
    currentModel = null
  \<close>
\<close>

definition clear_tables :: "viewer \<Rightarrow> viewer" where
  "clear_tables s =
     s\<lparr>mixer := False, actions := [], clipNames := [], clipDurations := [],
       parts := [], partNames := [], explodeState := 0\<rparr>"

definition clear_previous :: "object3d list \<Rightarrow> viewer \<Rightarrow> viewer" where
  "clear_previous sc s =
     (let s1 = s\<lparr>zoomAnimRAF := None, explodedZoomApplied := False\<rparr>;
          s2 = (case variant s of
                  Desktop \<Rightarrow>
                    (case currentModel s1 of
                       Some m \<Rightarrow> s1\<lparr>scene := Some (remove1 m sc), currentModel := None\<rparr>
                     | None \<Rightarrow> s1)
                | Mobile \<Rightarrow>
                    (case pivot s1 of
                       Some p \<Rightarrow> s1\<lparr>scene := Some (remove1 p sc), pivot := None, currentModel := None\<rparr>
                     | None \<Rightarrow> s1\<lparr>currentModel := None\<rparr>))
      in clear_tables s2)"

text \<open>
  \<^verbatim>\<open>
    gltf.animations.forEach((clip, i) => {
      const name = clip.name?.length ? clip.name : `Clip_${i}`
      const action = mixer.clipAction(clip)
      action.enabled = true
      action.setLoop(THREE.LoopOnce, 0)
      action.clampWhenFinished = true
      action.reset()
      action.paused = true
      action.setEffectiveWeight(1)
      action.setEffectiveTimeScale(1)
      actions[name] = action
      clipNames.push(name)
      clipDurations[name] = clip.duration
    })
  \<close>
  \<^verbatim>\<open>actions\<close> and \<^verbatim>\<open>clipDurations\<close> are ordinary objects, and the tables list their own
  properties in the order of \<^verbatim>\<open>Object.keys\<close> and \<^verbatim>\<open>Object.entries\<close>: the array indices (the
  canonical decimal names of the integers below \<open>2^32 - 1\<close>) in ascending order, then the
  other names in the order of their creation.  An assignment to an existing property
  keeps its place.  An assignment to \<^verbatim>\<open>__proto__\<close> creates no property: it sets the
  prototype when the value is an object (the action) and does nothing when it is a
  number (the duration).
\<close>

definition is_array_index :: "string \<Rightarrow> bool" where
  "is_array_index k =
     (k \<noteq> [] \<and> list_all isDigit k \<and> (k = ''0'' \<or> hd k \<noteq> CHR ''0'')
      \<and> digits_value k < 2 ^ 32 - 1)"

fun insert_key :: "string \<Rightarrow> 'v \<Rightarrow> (string \<times> 'v) list \<Rightarrow> (string \<times> 'v) list" where
  "insert_key k v [] = [(k, v)]"
| "insert_key k v ((k', v') # xs) =
     (if is_array_index k \<and> (\<not> is_array_index k' \<or> digits_value k < digits_value k')
      then (k, v) # (k', v') # xs
      else (k', v') # insert_key k v xs)"

definition set_property :: "string \<Rightarrow> 'v \<Rightarrow> (string \<times> 'v) list \<Rightarrow> (string \<times> 'v) list" where
  "set_property k v tbl =
     (if k = ''__proto__'' then tbl
      else if k \<in> fst ` set tbl then AList.update k v tbl
      else insert_key k v tbl)"

definition new_action :: "real \<Rightarrow> action" where
  "new_action d =
     setEffectiveTimeScale 1 (setEffectiveWeight 1
       ((reset ((setLoop LoopOnce ((clipAction d)\<lparr>enabled := True\<rparr>))\<lparr>clampWhenFinished := True\<rparr>))
          \<lparr>paused := True\<rparr>))"

definition add_clip :: "viewer \<Rightarrow> nat \<times> clip \<Rightarrow> viewer" where
  "add_clip s ic =
     (let nm = (if clip_name (snd ic) \<noteq> [] then clip_name (snd ic) else ''Clip_'' @ show_nat (fst ic))
      in s\<lparr>actions := set_property nm (new_action (duration (snd ic))) (actions s),
            clipNames := clipNames s @ [nm],
            clipDurations := set_property nm (duration (snd ic)) (clipDurations s)\<rparr>)"

text \<open>
  The new actions are not playing, so the \<^verbatim>\<open>mixer.update(1e-6)\<close> that follows leaves them
  as they are.
\<close>

definition add_animations :: "clip list \<Rightarrow> viewer \<Rightarrow> viewer" where
  "add_animations cs s =
     (if cs = [] then s
      else (foldl add_clip (s\<lparr>mixer := True\<rparr>) (enumerate 0 cs))\<lparr>explodeState := 0\<rparr>)"

text \<open>
  The desktop viewer, once the root is found:
  \<^verbatim>\<open>
    currentModel = root
    cloneMaterials(root)
    parts = gatherParts(root)
    partNames = parts.map((p, i) => p.name || `Part ${i + 1}`)
    computeModelStats(root)
    scene.add(root)
    fitCameraToObject(root, 1.25)
    ...animations...
  \<close>
  (the shadow flags, the lights and the camera are not part of the state modelled here).
\<close>

definition install_desktop :: "object3d list \<Rightarrow> gltf \<Rightarrow> object3d \<Rightarrow> viewer \<Rightarrow> viewer" where
  "install_desktop sc g rootObj s =
     (let root1 = cloneMaterials rootObj;
          (ps, names) = registry_desktop root1;
          box = setFromObject root1
      in add_animations (animations g)
           (s\<lparr>currentModel := Some root1, parts := ps, partNames := names,
              bbox := box, centroid := getCenter box, scene := Some (sc @ [root1])\<rparr>))"

text \<open>
  The mobile viewer wraps the root in a new pivot at the origin
  (\<^verbatim>\<open>centerRootUnderPivot\<close>: \<^verbatim>\<open>root.position.sub(c)\<close> moves every world-space box of the
  subtree by \<open>- c\<close>, each coordinate rounded), gathers the parts, promotes the section
  names and takes the statistics of the pivot.
\<close>

fun translate :: "vec3 \<Rightarrow> object3d \<Rightarrow> object3d" where
  "translate d (Object3D n v m mats g cs) =
     Object3D n v m mats
       (case (d, g) of
          (_, None) \<Rightarrow> None
        | ((dx, dy, dz), Some ((x, y, z), (X, Y, Z))) \<Rightarrow>
            Some ((dadd x dx, dadd y dy, dadd z dz), (dadd X dx, dadd Y dy, dadd Z dz)))
       (map (translate d) cs)"

definition install_mobile :: "object3d list \<Rightarrow> gltf \<Rightarrow> object3d \<Rightarrow> viewer \<Rightarrow> viewer" where
  "install_mobile sc g rootObj s =
     (let root1 = cloneMaterials rootObj;
          (cx, cy, cz) = getCenter (setFromObject root1);
          root2 = translate (- cx, - cy, - cz) root1;
          pivotObj = Object3D ''Pivot'' True False [] None [root2];
          (ps, names) = registry_mobile pivotObj root2;
          box = setFromObject pivotObj
      in add_animations (animations g)
           (s\<lparr>pivot := Some pivotObj, currentModel := Some pivotObj, parts := ps,
              partNames := names, bbox := box, centroid := getCenter box,
              scene := Some (sc @ [pivotObj])\<rparr>))"

text \<open>
  \<^verbatim>\<open>async function loadGLB(fileOrUrl)\<close>: nothing happens without a scene; otherwise the
  previous asset is cleared, then the loader runs, and the promise is rejected when the
  loader fails or the asset has no scene root.
\<close>

definition loadGLB :: "loaded \<Rightarrow> viewer \<Rightarrow> outcome \<times> viewer" where
  "loadGLB l s =
     (case scene s of
        None \<Rightarrow> (Resolved, s)
      | Some sc0 \<Rightarrow>
          (let s1 = clear_previous sc0 s;
               sc = (case scene s1 of Some c \<Rightarrow> c | None \<Rightarrow> [])
           in case l of
                LoadFailed \<Rightarrow> (Rejected LoaderFailed, s1)
              | Loaded g \<Rightarrow>
                  (case scene_root g of
                     None \<Rightarrow> (Rejected NoScene, s1)
                   | Some rootObj \<Rightarrow>
                       (Resolved,
                        case variant s of
                          Desktop \<Rightarrow> install_desktop sc g rootObj s1
                        | Mobile \<Rightarrow> install_mobile sc g rootObj s1))))"

text \<open>
  \<^verbatim>\<open>dispose\<close>, on the modelled state:
  \<^verbatim>\<open>
    _zoomAnimRAF = null; _explodedZoomApplied = false
    if (pivot) { scene?.remove(pivot); pivot = null }        // mobile
    if (mixer) { mixer.stopAllAction(); mixer = null }
    actions = {}; activeAction = null; clipNames = []; clipDurations = {}
    controls?.dispose(); controls = null
    scene = null; camera = null; currentModel = null
    parts = []; partNames = []
    explodeState = 0
  \<close>
\<close>

definition dispose :: "viewer \<Rightarrow> viewer" where
  "dispose s =
     (clear_tables s)\<lparr>zoomAnimRAF := None, explodedZoomApplied := False, pivot := None,
       controls := False, scene := None, camera := False, currentModel := None\<rparr>"


section \<open>Wheel gestures (src/ui/App.tsx, onWheel)\<close>

text \<open>
  The part of the component state that the wheel handler touches: the stage, the named
  parts (which fix \<open>totalStages\<close>), the \<^verbatim>\<open>wheelCooldown\<close> ref, the due times of the pending
  \<^verbatim>\<open>setTimeout\<close> callbacks that clear it, and the dolly factors handed to the viewer.
  \<open>accepted\<close> is a history variable: the times of the wheel events that changed the stage.
  Times are in milliseconds.
\<close>

record app =
  stage :: int
  namedParts :: "namedPart list"
  wheelCooldown :: bool
  timers :: "real list"
  dollyCalls :: "real list"
  accepted :: "real list"

text \<open>
  \<^verbatim>\<open>
    const onWheel = (e: WheelEvent) => {
      if (e.ctrlKey || e.metaKey) {
        e.preventDefault()
        const k = Math.exp((e.deltaY / 100) * 0.15)
        handle.dolly?.(k)
      } else {
        if (wheelCooldown.current) return
        if (Math.abs(e.deltaY) < 30) return
        e.preventDefault()
        wheelCooldown.current = true
        if (e.deltaY > 0) nextStage()
        else prevStage()
        window.setTimeout(() => { wheelCooldown.current = false }, 260)
      }
    }
  \<close>
  \<open>now\<close> is the time of the event, \<open>modifier\<close> is \<^verbatim>\<open>e.ctrlKey || e.metaKey\<close>.
\<close>

definition onWheel :: "real \<Rightarrow> real \<Rightarrow> bool \<Rightarrow> app \<Rightarrow> app" where
  "onWheel now deltaY modifier s =
     (if modifier then s\<lparr>dollyCalls := dollyCalls s @ [exp ((deltaY / 100) * 0.15)]\<rparr>
      else if wheelCooldown s then s
      else if \<bar>deltaY\<bar> < 30 then s
      else s\<lparr>wheelCooldown := True,
             stage := (if deltaY > 0 then nextStage (namedParts s) (stage s)
                       else prevStage (namedParts s) (stage s)),
             timers := timers s @ [now + 260],
             accepted := accepted s @ [now]\<rparr>)"

text \<open>
  The events of the component: a wheel event, or the browser running the oldest pending
  timer callback, which it does no earlier than the timer is due.  A run is a list of
  events with their times; it is \<^term>\<open>None\<close> when the times go backwards or a timer fires
  before it is due.
\<close>

datatype event = Wheel real bool | Timeout

definition fire :: "real \<Rightarrow> app \<Rightarrow> app option" where
  "fire now s =
     (case timers s of
        [] \<Rightarrow> None
      | due # rest \<Rightarrow> if due \<le> now then Some (s\<lparr>wheelCooldown := False, timers := rest\<rparr>) else None)"

fun run :: "real \<Rightarrow> (real \<times> event) list \<Rightarrow> app \<Rightarrow> (real \<times> app) option" where
  "run now [] s = Some (now, s)"
| "run now ((t, ev) # evs) s =
     (if t < now then None
      else case ev of
        Wheel deltaY modifier \<Rightarrow> run t evs (onWheel t deltaY modifier s)
      | Timeout \<Rightarrow> (case fire t s of None \<Rightarrow> None | Some s1 \<Rightarrow> run t evs s1))"

text \<open>The component after mounting, at stage 0 with the named parts of the loaded asset.\<close>

definition mounted :: "namedPart list \<Rightarrow> app" where
  "mounted np =
     \<lparr>stage = 0, namedParts = np, wheelCooldown = False, timers = [], dollyCalls = [],
      accepted = []\<rparr>"

text \<open>
  What holds between events: while the cooldown is on, exactly the timer of the last
  accepted wheel event is pending; while it is off, no timer is pending and every accepted
  wheel event lies at least 260 ms back.
\<close>

definition cooldown_inv :: "real \<Rightarrow> app \<Rightarrow> bool" where
  "cooldown_inv now s =
     (if wheelCooldown s
      then accepted s \<noteq> [] \<and> timers s = [last (accepted s) + 260]
           \<and> list_all (\<lambda>a. a \<le> last (accepted s)) (accepted s) \<and> last (accepted s) \<le> now
      else timers s = [] \<and> list_all (\<lambda>a. a + 260 \<le> now) (accepted s))"

section \<open>Example assets\<close>

definition mat :: "real \<Rightarrow> material" where
  "mat op = \<lparr>opacity = op, transparent = False, depthWrite = True, colorWrite = True, saved = None\<rparr>"

definition mesh :: "string \<Rightarrow> real \<Rightarrow> box3 \<Rightarrow> object3d" where
  "mesh n op b = Object3D n True True [mat op] b []"

definition group_obj :: "string \<Rightarrow> object3d list \<Rightarrow> object3d" where
  "group_obj n cs = Object3D n True False [] None cs"

text \<open>
  The state that \<^verbatim>\<open>initViewer\<close> sets up before it loads the first asset: scene, camera and
  controls exist, nothing is loaded, the orbit target is the origin.
\<close>

definition init_viewer :: "variant \<Rightarrow> viewer" where
  "init_viewer v =
     \<lparr>variant = v, scene = Some [], camera = True, controls = True, currentModel = None,
      pivot = None, parts = [], partNames = [], bbox = None, centroid = (0, 0, 0),
      target_desired = (0, 0, 0), mixer = False, actions = [], clipNames = [],
      clipDurations = [], playbackSpeed = 1, explodeState = 0, explodedZoomApplied = False,
      zoomAnimRAF = None, dollyLog = []\<rparr>"

text \<open>A bed of two parts with one explode clip of two seconds, and an asset without a scene.\<close>

definition bed :: gltf where
  "bed =
     \<lparr>gltf_scene = Some (group_obj ''Scene''
        [mesh ''sec 1'' 0.5 (Some ((0, 0, 0), (2, 2, 2))),
         mesh ''frame'' 1 (Some ((2, 0, 0), (4, 2, 6)))]),
      scenes = [], animations = [\<lparr>clip_name = ''explode'', duration = 2\<rparr>]\<rparr>"

definition no_scene :: gltf where
  "no_scene = \<lparr>gltf_scene = None, scenes = [], animations = []\<rparr>"

definition bed_parts :: "object3d list" where
  "bed_parts =
     [Object3D ''sec 1'' True True
        [\<lparr>opacity = 0.5, transparent = True, depthWrite = True, colorWrite = True,
          saved = Some (False, 0.5)\<rparr>] (Some ((0, 0, 0), (2, 2, 2))) [],
      Object3D ''frame'' True True
        [\<lparr>opacity = 1, transparent = True, depthWrite = True, colorWrite = True,
          saved = Some (False, 1)\<rparr>] (Some ((2, 0, 0), (4, 2, 6))) []]"

definition crib :: object3d where
  "crib = group_obj ''bed'' [group_obj '' sec 3'' [mesh ''m'' 1 None], group_obj ''sec 4'' []]"

section \<open>Properties of the rounding\<close>

lemma round_even_of_int [simp]: "round_even (of_int n) = n"
  by (simp add: round_even_def)

lemma round_even_bounds: "\<lfloor>y\<rfloor> \<le> round_even y \<and> round_even y \<le> \<lfloor>y\<rfloor> + 1"
  by (simp add: round_even_def Let_def)


lemma round_double_zero [simp]: "round_double 0 = 0"
  by (simp add: round_double_def)


lemma exponent_exact:
  assumes "m \<noteq> 0" "\<bar>m\<bar> < 2 ^ 53" "- 1074 \<le> k"
  shows "exponent (of_int m * 2 powr of_int k) - 52 \<le> k"
proof -
  let ?y = "of_int m * 2 powr of_int k :: real"
  have pos: "0 < \<bar>?y\<bar>" using assms(1) by simp
  have "\<bar>?y\<bar> = of_int \<bar>m\<bar> * 2 powr of_int k" by (simp add: abs_mult)
  also have "\<dots> < 2 ^ 53 * 2 powr of_int k"
  proof -
    have "(of_int \<bar>m\<bar> :: real) < of_int (2 ^ 53)" using assms(2) by (simp only: of_int_less_iff)
    then show ?thesis by simp
  qed
  also have "\<dots> = 2 powr (of_int (k + 53))"
    by (simp add: powr_add powr_realpow [symmetric])
  finally have "\<bar>?y\<bar> < 2 powr (of_int (k + 53))" .
  then have "log 2 \<bar>?y\<bar> < of_int (k + 53)"
    using pos by (simp add: log_less_iff del: of_int_add)
  then have "\<lfloor>log 2 \<bar>?y\<bar>\<rfloor> < k + 53" by (simp only: floor_less_iff)
  with assms(3) show ?thesis by (simp add: exponent_def)
qed

lemma round_double_exact:
  assumes "\<bar>m\<bar> < 2 ^ 53" "- 1074 \<le> k"
  shows "round_double (of_int m * 2 powr of_int k) = of_int m * 2 powr of_int k"
proof (cases "m = 0")
  case True
  then show ?thesis by simp
next
  case False
  define y :: real where "y = of_int m * 2 powr of_int k"
  define e where "e = exponent y - 52"
  from exponent_exact [OF False assms] have le: "e \<le> k" by (simp add: e_def y_def)
  define j where "j = nat (k - e)"
  have "of_int k = (of_int e :: real) + real j" using le by (simp add: j_def)
  then have "(2::real) powr of_int k = 2 powr (of_int e + real j)" by simp
  also have "\<dots> = 2 powr of_int e * 2 ^ j"
    by (simp only: powr_add powr_realpow [of 2 j, simplified])
  finally have p: "(2::real) powr of_int k = 2 powr of_int e * 2 ^ j" .
  have q: "y / 2 powr of_int e = of_int (m * 2 ^ j)"
    by (simp add: y_def p)
  have y0: "y \<noteq> 0" using False by (simp add: y_def)
  have "round_double y = of_int (round_even (y / 2 powr of_int e)) * 2 powr of_int e"
    using y0 by (simp add: round_double_def e_def)
  also have "\<dots> = of_int (m * 2 ^ j) * 2 powr of_int e"
    by (simp only: q round_even_of_int)
  also have "\<dots> = y"
    by (simp add: y_def p)
  finally show ?thesis by (simp add: y_def)
qed

lemma round_double_exact_top:
  assumes "\<bar>m\<bar> \<le> 2 ^ 53" "- 1074 \<le> k"
  shows "round_double (of_int m * 2 powr of_int k) = of_int m * 2 powr of_int k"
proof (cases "\<bar>m\<bar> < 2 ^ 53")
  case True
  then show ?thesis using assms(2) by (rule round_double_exact)
next
  case False
  with assms(1) have "\<bar>m\<bar> = 2 ^ 53" by simp
  then consider "m = 2 ^ 53" | "m = - (2 ^ 53)" by linarith
  then obtain h :: int where h: "m = h * 2" "\<bar>h\<bar> < 2 ^ 53"
  proof cases
    case 1
    then have "m = (2 ^ 52) * 2" "\<bar>2 ^ 52 :: int\<bar> < 2 ^ 53" by simp_all
    then show ?thesis by (rule that)
  next
    case 2
    then have "m = (- (2 ^ 52)) * 2" "\<bar>- (2 ^ 52) :: int\<bar> < 2 ^ 53" by simp_all
    then show ?thesis by (rule that)
  qed
  have "of_int m * 2 powr of_int k = (of_int h :: real) * 2 powr of_int (k + 1)"
    by (simp add: h(1) powr_add)
  moreover have "round_double (of_int h * 2 powr of_int (k + 1)) = of_int h * 2 powr of_int (k + 1)"
    using h(2) assms(2) by (intro round_double_exact) simp_all
  ultimately show ?thesis by simp
qed

lemma mantissa_bound:
  assumes "x \<noteq> 0"
  shows "\<bar>x / 2 powr of_int (exponent x - 52)\<bar> < 2 ^ 53"
proof -
  let ?L = "\<lfloor>log 2 \<bar>x\<bar>\<rfloor>"
  have pos: "0 < \<bar>x\<bar>" using assms by simp
  have "log 2 \<bar>x\<bar> < of_int (?L + 1)" by linarith
  then have "\<bar>x\<bar> < 2 powr of_int (?L + 1)"
    using pos by (simp add: log_less_iff del: of_int_add)
  also have "\<dots> \<le> 2 powr of_int (exponent x + 1)"
    by (simp add: exponent_def del: of_int_add)
  also have "\<dots> = 2 ^ 53 * 2 powr of_int (exponent x - 52)"
  proof -
    have "(of_int (exponent x + 1) :: real) = 53 + of_int (exponent x - 52)" by simp
    then have "(2::real) powr of_int (exponent x + 1) = 2 powr (53 + of_int (exponent x - 52))"
      by (simp only:)
    also have "\<dots> = 2 powr 53 * 2 powr of_int (exponent x - 52)"
      by (simp only: powr_add)
    finally show ?thesis by simp
  qed
  finally have "\<bar>x\<bar> < 2 ^ 53 * 2 powr of_int (exponent x - 52)" .
  then have "\<bar>x\<bar> / 2 powr of_int (exponent x - 52) < 2 ^ 53"
    by (simp add: pos_divide_less_eq)
  then show ?thesis by (simp add: abs_divide)
  qed

lemma round_even_abs_bound:
  assumes "\<bar>y\<bar> < of_int N"
  shows "\<bar>round_even y\<bar> \<le> N"
proof -
  from assms have "y < of_int N" "- of_int N < y" by linarith+
  then have "\<lfloor>y\<rfloor> < N" "- N \<le> \<lfloor>y\<rfloor>"
    by (simp_all add: floor_less_iff le_floor_iff)
  with round_even_bounds [of y] show ?thesis by linarith
qed

lemma round_double_idem [simp]: "round_double (round_double x) = round_double x"
proof (cases "x = 0")
  case True
  then show ?thesis by simp
next
  case False
  let ?k = "exponent x - 52"
  let ?m = "round_even (x / 2 powr of_int ?k)"
  have r: "round_double x = of_int ?m * 2 powr of_int ?k"
    using False by (simp add: round_double_def)
  have "\<bar>x / 2 powr of_int ?k\<bar> < of_int (2 ^ 53)"
    using mantissa_bound [OF False] by simp
  then have "\<bar>?m\<bar> \<le> 2 ^ 53" by (rule round_even_abs_bound)
  moreover have "- 1074 \<le> ?k" by (simp add: exponent_def)
  ultimately have "round_double (of_int ?m * 2 powr of_int ?k) = of_int ?m * 2 powr of_int ?k"
    by (rule round_double_exact_top)
  then show ?thesis by (simp only: r)
qed

lemma round_double_int:
  "\<bar>n\<bar> < 2 ^ 53 \<Longrightarrow> round_double (of_int n) = of_int n"
  using round_double_exact [of n 0] by simp

lemma round_double_numeral [simp]:
  "(numeral n :: int) < 2 ^ 53 \<Longrightarrow> round_double (numeral n) = numeral n"
  using round_double_int [of "numeral n"] by simp

lemma round_double_neg_numeral [simp]:
  "(numeral n :: int) < 2 ^ 53 \<Longrightarrow> round_double (- numeral n) = - numeral n"
  using round_double_int [of "- numeral n"] by simp

lemma round_double_one [simp]: "round_double 1 = 1"
  using round_double_int [of 1] by simp

lemma round_double_half [simp]:
  "(numeral n :: int) < 2 ^ 53 \<Longrightarrow> round_double (numeral n / 2) = numeral n / 2"
  using round_double_exact [of "numeral n" "- 1"] by (simp add: powr_neg_one)




lemma dmul_double [simp]: "round_double (dmul x y) = dmul x y"
  by (simp add: dmul_def)

lemma dadd_double [simp]: "round_double (dadd x y) = dadd x y"
  by (simp add: dadd_def)

section \<open>Properties of the stage sequencer\<close>

lemma js_rem_range: "0 < n \<Longrightarrow> - n < js_rem i n \<and> js_rem i n < n"
proof -
  assume n: "0 < n"
  define r where "r = \<bar>i\<bar> mod \<bar>n\<bar>"
  have "0 \<le> r" "r < n"
    using n by (simp_all add: r_def)
  moreover have "js_rem i n = sgn i * r"
    by (simp add: js_rem_def r_def)
  ultimately show ?thesis
    by (cases "i < 0"; cases "i = 0") simp_all
qed

lemma js_rem_nonneg: "0 \<le> a \<Longrightarrow> 0 < n \<Longrightarrow> js_rem a n = a mod n"
  by (simp add: js_rem_def sgn_if)

lemma js_rem_cong: "0 < n \<Longrightarrow> js_rem i n mod n = i mod n"
proof (cases "i < 0")
  case False
  assume "0 < n"
  with False show ?thesis by (simp add: js_rem_def sgn_if)
next
  case True
  assume n: "0 < n"
  from True have "js_rem i n = - ((- i) mod n)"
    using n by (simp add: js_rem_def sgn_if)
  also have "(- ((- i) mod n)) mod n = (- (- i)) mod n"
    by (simp add: mod_minus_eq)
  finally show ?thesis by simp
qed

lemma loopIndex_floor_mod: "0 < n \<Longrightarrow> loopIndex n i = i mod n"
proof -
  assume n: "0 < n"
  have r: "0 \<le> js_rem i n + n" using js_rem_range [OF n, of i] by simp
  have "loopIndex n i = (js_rem i n + n) mod n"
    using n r by (simp add: loopIndex_def js_rem_nonneg)
  also have "\<dots> = js_rem i n mod n" by simp
  also have "\<dots> = i mod n" by (rule js_rem_cong [OF n])
  finally show ?thesis .
qed

lemma nextStage_iterate:
  "0 < n \<Longrightarrow> ((\<lambda>s. loopIndex n (s + 1)) ^^ k) s = (if k = 0 then s else (s + int k) mod n)"
proof (induction k)
  case 0
  show ?case by simp
next
  case (Suc k)
  show ?case
  proof (cases "k = 0")
    case True
    with Suc.prems show ?thesis by (simp add: loopIndex_floor_mod)
  next
    case False
    with Suc show ?thesis
      by (simp add: loopIndex_floor_mod mod_add_left_eq add.assoc add.commute [of 1])
  qed
qed

text \<open>
  C3.  The stage arithmetic is the floor-correct modulo: for every integer \<open>i\<close> the wrapped
  index is \<open>i mod totalStages\<close> (negative values wrap to the top).  From every stage index
  \<open>s\<close> in \<open>[0, totalStages)\<close>, one \<open>nextStage\<close> followed by \<open>totalStages - 1\<close> more returns
  to \<open>s\<close>, and with two named sections \<open>previousStage\<close> from stage 0 yields stage 3.
\<close>

theorem stage_cycle:
  "loopIndex (totalStages np) i = i mod totalStages np
   \<and> (0 \<le> s \<and> s < totalStages np \<longrightarrow>
        (nextStage np ^^ nat (totalStages np - 1)) (nextStage np s) = s)
   \<and> (length np = 2 \<longrightarrow> totalStages np = 4 \<and> prevStage np 0 = 3)"
proof -
  let ?n = "totalStages np"
  have n: "0 < ?n" by (simp add: totalStages_def)
  have next_eq: "nextStage np = (\<lambda>s. loopIndex ?n (s + 1))"
    by (rule ext) (simp add: nextStage_def)
  have c1: "loopIndex ?n i = i mod ?n" by (rule loopIndex_floor_mod [OF n])
  have c2: "(nextStage np ^^ nat (?n - 1)) (nextStage np s) = s" if s: "0 \<le> s" "s < ?n"
  proof -
    have "(nextStage np ^^ nat (?n - 1)) (nextStage np s) = (nextStage np ^^ Suc (nat (?n - 1))) s"
      by (simp add: funpow_swap1)
    also have "\<dots> = (s + int (Suc (nat (?n - 1)))) mod ?n"
      unfolding next_eq by (subst nextStage_iterate [OF n]) simp
    also have "int (Suc (nat (?n - 1))) = ?n" using n by simp
    also have "(s + ?n) mod ?n = s" using s by simp
    finally show ?thesis .
  qed
  have c3: "totalStages np = 4 \<and> prevStage np 0 = 3" if "length np = 2"
    using that by (simp add: prevStage_def totalStages_def loopIndex_floor_mod)
  from c1 c2 c3 show ?thesis by blast
qed

theorem stage_cycle_witness:
  "(0::int) \<le> 3 \<and> 3 < totalStages [\<lparr>name = ''sec 1'', index = 0, num = 1\<rparr>, \<lparr>name = ''sec 2'', index = 1, num = 2\<rparr>]
   \<and> length [\<lparr>name = ''sec 1'', index = 0, num = 1\<rparr>, \<lparr>name = ''sec 2'', index = 1, num = 2\<rparr>] = 2
   \<and> (nextStage [\<lparr>name = ''sec 1'', index = 0, num = 1\<rparr>, \<lparr>name = ''sec 2'', index = 1, num = 2\<rparr>] ^^ 3)
        (nextStage [\<lparr>name = ''sec 1'', index = 0, num = 1\<rparr>, \<lparr>name = ''sec 2'', index = 1, num = 2\<rparr>] 3) = 3
   \<and> prevStage [\<lparr>name = ''sec 1'', index = 0, num = 1\<rparr>, \<lparr>name = ''sec 2'', index = 1, num = 2\<rparr>] 0 = 3
   \<and> loopIndex 4 (- 1) = 3"
  using stage_cycle [of "[\<lparr>name = ''sec 1'', index = 0, num = 1\<rparr>, \<lparr>name = ''sec 2'', index = 1, num = 2\<rparr>]" "- 1" 3]
  by (simp add: totalStages_def)

section \<open>Properties of the section pattern\<close>

lemma set_star: "set (star P s) = {r. \<exists>w. s = w @ r \<and> list_all P w}"
proof (induction s)
  case Nil
  show ?case by auto
next
  case (Cons c cs)
  show ?case
  proof (cases "P c")
    case True
    have "{r. \<exists>w. c # cs = w @ r \<and> list_all P w} = insert (c # cs) {r. \<exists>w. cs = w @ r \<and> list_all P w}"
      (is "?L = ?R")
    proof (intro set_eqI iffI)
      fix r assume "r \<in> ?L"
      then obtain w where w: "c # cs = w @ r" "list_all P w" by blast
      show "r \<in> ?R"
      proof (cases w)
        case Nil
        with w show ?thesis by simp
      next
        case (Cons a w')
        with w show ?thesis by auto
      qed
    next
      fix r assume "r \<in> ?R"
      then consider "r = c # cs" | w where "cs = w @ r" "list_all P w" by blast
      then show "r \<in> ?L"
      proof cases
        case 1
        then have "c # cs = [] @ r \<and> list_all P []" by simp
        then show ?thesis by blast
      next
        case 2
        then have "c # cs = (c # w) @ r \<and> list_all P (c # w)" using True by simp
        then show ?thesis by blast
      qed
    qed
    with True Cons show ?thesis by simp
  next
    case False
    have "{r. \<exists>w. c # cs = w @ r \<and> list_all P w} = {c # cs}"
    proof (intro set_eqI iffI)
      fix r assume "r \<in> {r. \<exists>w. c # cs = w @ r \<and> list_all P w}"
      then obtain w where w: "c # cs = w @ r" "list_all P w" by blast
      with False show "r \<in> {c # cs}" by (cases w) auto
    next
      fix r assume "r \<in> {c # cs}"
      then have "c # cs = [] @ r \<and> list_all P []" by simp
      then show "r \<in> {r. \<exists>w. c # cs = w @ r \<and> list_all P w}" by blast
    qed
    with False show ?thesis by simp
  qed
qed

lemma set_lit_ci:
  "set (lit_ci w s) = {r. \<exists>t. s = t @ r \<and> map canonicalize t = map canonicalize w}"
proof (intro set_eqI iffI)
  fix r assume "r \<in> set (lit_ci w s)"
  then have c: "length w \<le> length s" "map canonicalize (take (length w) s) = map canonicalize w"
    and r: "r = drop (length w) s"
    by (auto simp: lit_ci_def split: if_splits)
  have "s = take (length w) s @ r" using r by simp
  with c show "r \<in> {r. \<exists>t. s = t @ r \<and> map canonicalize t = map canonicalize w}" by blast
next
  fix r assume "r \<in> {r. \<exists>t. s = t @ r \<and> map canonicalize t = map canonicalize w}"
  then obtain t where t: "s = t @ r" "map canonicalize t = map canonicalize w" by blast
  from t(2) have "length t = length w" by (rule map_eq_imp_length_eq)
  with t show "r \<in> set (lit_ci w s)" by (simp add: lit_ci_def)
qed

lemma canon_words:
  "map canonicalize ''sec'' = ''SEC''" "map canonicalize ''se'' = ''SE''"
  "map canonicalize ''section'' = ''SECTION''"
  by (simp_all add: canonicalize_def)

lemma three_way:
  "{r. \<exists>t. P t r \<and> f t = a} \<union> ({r. \<exists>t. P t r \<and> f t = b} \<union> {r. \<exists>t. P t r \<and> f t = c})
     = {r. \<exists>t. P t r \<and> f t \<in> {a, b, c}}"
  by blast

lemma set_token: "set (token s) = {r. \<exists>t. s = t @ r \<and> is_token t}"
  unfolding token_def set_append set_lit_ci canon_words is_token_def by (rule three_way)

lemma set_digits1:
  "set (digits1 s) = {(d, r). s = d @ r \<and> d \<noteq> [] \<and> list_all isDigit d}"
proof (intro set_eqI iffI)
  fix x assume "x \<in> set (digits1 s)"
  then obtain r where r: "r \<in> set (star isDigit s)" "length r < length s"
    and x: "x = (take (length s - length r) s, r)"
    by (auto simp: digits1_def)
  from r(1) obtain w where w: "s = w @ r" "list_all isDigit w" by (auto simp: set_star)
  with r(2) x show "x \<in> {(d, r). s = d @ r \<and> d \<noteq> [] \<and> list_all isDigit d}" by auto
next
  fix x assume "x \<in> {(d, r). s = d @ r \<and> d \<noteq> [] \<and> list_all isDigit d}"
  then obtain d r where x: "x = (d, r)" and d: "s = d @ r" "d \<noteq> []" "list_all isDigit d" by blast
  then have "r \<in> set (star isDigit s)" by (auto simp: set_star)
  moreover have "length r < length s" "take (length s - length r) s = d" using d by simp_all
  ultimately show "x \<in> set (digits1 s)" using x by (force simp: digits1_def)
qed

lemma rx_matches_mem:
  "d \<in> set (rx_matches s) \<longleftrightarrow>
     (\<exists>r1 r2 r3 r4. r1 \<in> set (star isWhiteSpace s) \<and> r2 \<in> set (token r1)
        \<and> r3 \<in> set (star isWhiteSpace r2) \<and> (d, r4) \<in> set (digits1 r3)
        \<and> [] \<in> set (star isWhiteSpace r4))"
  unfolding rx_matches_def by (simp add: Bex_def) blast

lemma set_rx_matches: "d \<in> set (rx_matches s) \<longleftrightarrow> section_text s d"
proof
  assume "d \<in> set (rx_matches s)"
  then obtain r1 r2 r3 r4 where
    "r1 \<in> set (star isWhiteSpace s)" "r2 \<in> set (token r1)" "r3 \<in> set (star isWhiteSpace r2)"
    "(d, r4) \<in> set (digits1 r3)" "[] \<in> set (star isWhiteSpace r4)"
    unfolding rx_matches_mem by blast
  then obtain w1 tok w2 where
    "s = w1 @ r1" "list_all isWhiteSpace w1" "r1 = tok @ r2"
    "is_token tok"
    "r2 = w2 @ r3" "list_all isWhiteSpace w2" "r3 = d @ r4" "d \<noteq> []" "list_all isDigit d"
    "list_all isWhiteSpace r4"
    unfolding set_star set_token set_digits1 by auto
  then show "section_text s d"
    unfolding section_text_def by (intro exI [of _ w1] exI [of _ tok] exI [of _ w2] exI [of _ r4]) simp
next
  assume "section_text s d"
  then obtain w1 tok w2 w3 where h:
    "s = w1 @ tok @ w2 @ d @ w3" "list_all isWhiteSpace w1"
    "is_token tok"
    "list_all isWhiteSpace w2" "d \<noteq> []" "list_all isDigit d" "list_all isWhiteSpace w3"
    unfolding section_text_def by blast
  have 1: "tok @ w2 @ d @ w3 \<in> set (star isWhiteSpace s)" using h by (auto simp: set_star)
  have 2: "w2 @ d @ w3 \<in> set (token (tok @ w2 @ d @ w3))" using h unfolding set_token by blast
  have 3: "d @ w3 \<in> set (star isWhiteSpace (w2 @ d @ w3))" using h by (auto simp: set_star)
  have 4: "(d, w3) \<in> set (digits1 (d @ w3))" using h by (simp add: set_digits1)
  have 5: "[] \<in> set (star isWhiteSpace w3)" using h by (simp add: set_star)
  show "d \<in> set (rx_matches s)"
    unfolding rx_matches_mem using 1 2 3 4 5 by blast
qed


lemma white_not_digit_nat: "n \<in> {9, 10, 11, 12, 13, 32, 160 :: nat} \<Longrightarrow> \<not> (48 \<le> n \<and> n \<le> 57)"
  by auto

lemma white_not_digit: "isWhiteSpace c \<Longrightarrow> \<not> isDigit c"
  unfolding isWhiteSpace_def isDigit_def by (rule white_not_digit_nat)

lemma lower_of_char: "c \<in> set ''abcdefghijklmnopqrstuvwxyz'' \<Longrightarrow> 97 \<le> (of_char c :: nat)"
  unfolding list.set insert_iff empty_iff by (elim disjE FalseE; simp)
lemma digit_not_lower: "isDigit c \<Longrightarrow> c \<notin> set ''abcdefghijklmnopqrstuvwxyz''"
  using lower_of_char [of c] unfolding isDigit_def by linarith
lemma digit_canonicalize: "isDigit c \<Longrightarrow> canonicalize c = c"
proof -
  assume "isDigit c"
  then have "c \<notin> set ''abcdefghijklmnopqrstuvwxyz''" by (rule digit_not_lower)
  then have "map_of (zip ''abcdefghijklmnopqrstuvwxyz'' ''ABCDEFGHIJKLMNOPQRSTUVWXYZ'') c = None"
    by (subst map_of_zip_is_None) simp_all
  then show ?thesis by (simp only: canonicalize_def option.case)
qed
lemma letters_not_digit: "c \<in> set ''SECTION'' \<Longrightarrow> \<not> isDigit c"
  unfolding list.set insert_iff empty_iff isDigit_def by (elim disjE FalseE; simp)
lemma token_not_digit: "is_token tok \<Longrightarrow> c \<in> set tok \<Longrightarrow> \<not> isDigit c"
proof
  assume t: "is_token tok" and c: "c \<in> set tok" and d: "isDigit c"
  from t have "set (map canonicalize tok) \<subseteq> set ''SECTION''"
    unfolding is_token_def by auto
  with c have "canonicalize c \<in> set ''SECTION''" by auto
  with d have "c \<in> set ''SECTION''" by (simp only: digit_canonicalize)
  with d show False using letters_not_digit by blast
qed

lemma section_text_capture:
  assumes "section_text s d"
  shows "d = takeWhile isDigit (dropWhile (\<lambda>c. \<not> isDigit c) s)"
proof -
  from assms obtain w1 tok w2 w3 where h:
    "s = w1 @ tok @ w2 @ d @ w3" "list_all isWhiteSpace w1" "is_token tok"
    "list_all isWhiteSpace w2" "d \<noteq> []" "list_all isDigit d" "list_all isWhiteSpace w3"
    unfolding section_text_def by blast
  have pre: "\<And>c. c \<in> set (w1 @ tok @ w2) \<Longrightarrow> \<not> isDigit c"
    using h(2,3,4) by (auto simp: list_all_iff white_not_digit token_not_digit)
  have "s = (w1 @ tok @ w2) @ (d @ w3)" using h(1) by simp
  moreover have "dropWhile (\<lambda>c. \<not> isDigit c) ((w1 @ tok @ w2) @ (d @ w3))
      = dropWhile (\<lambda>c. \<not> isDigit c) (d @ w3)"
    by (rule dropWhile_append2) (rule pre)
  ultimately have "dropWhile (\<lambda>c. \<not> isDigit c) s = dropWhile (\<lambda>c. \<not> isDigit c) (d @ w3)"
    by simp
  also have "\<dots> = d @ w3"
    using h(5,6) by (cases d) simp_all
  finally have "takeWhile isDigit (dropWhile (\<lambda>c. \<not> isDigit c) s) = d @ takeWhile isDigit w3"
    using h(6) by (simp add: list_all_iff takeWhile_append2)
  moreover have "takeWhile isDigit w3 = []"
    using h(7) by (cases w3) (simp_all add: white_not_digit)
  ultimately show ?thesis by simp
qed

lemma rx_exec_iff: "rx_exec s = Some d \<longleftrightarrow> section_text s d"
proof
  assume "rx_exec s = Some d"
  then have "d \<in> set (rx_matches s)"
    by (auto simp: rx_exec_def split: list.splits)
  then show "section_text s d" by (simp only: set_rx_matches)
next
  assume st: "section_text s d"
  then have "d \<in> set (rx_matches s)" by (simp only: set_rx_matches)
  then obtain d' ds where m: "rx_matches s = d' # ds" by (cases "rx_matches s") auto
  then have "d' \<in> set (rx_matches s)" by simp
  then have "section_text s d'" by (simp only: set_rx_matches)
  then have "d' = d" using st section_text_capture by blast
  with m show "rx_exec s = Some d" by (simp add: rx_exec_def)
qed

lemma pick_iff:
  "pick nm idx = Some p \<longleftrightarrow>
     (\<exists>ds n. section_text (trim nm) ds \<and> to_double (digits_value ds) = Some n
        \<and> p = \<lparr>name = nm, index = idx, num = n\<rparr>)"
  by (auto simp: pick_def parseInt10_def rx_exec_iff [symmetric] split: option.splits)

lemma pick_None_iff:
  "pick nm idx = None \<longleftrightarrow>
     (\<forall>ds. section_text (trim nm) ds \<longrightarrow> to_double (digits_value ds) = None)"
  by (auto simp: pick_def parseInt10_def rx_exec_iff [symmetric] split: option.splits)

lemmas rx_eval = pick_def rx_exec_def rx_matches_def token_def lit_ci_def digits1_def
  isWhiteSpace_def isDigit_def canonicalize_def trim_def parseInt10_def digits_value_def
  digit_value_def to_double_def

lemma ex1: "pick ''Section 4'' i = Some \<lparr>name = ''Section 4'', index = i, num = 4\<rparr>" by (simp add: rx_eval)
lemma ex2: "pick ''sec4'' i = Some \<lparr>name = ''sec4'', index = i, num = 4\<rparr>" by (simp add: rx_eval)
lemma ex3: "pick ''SE 4'' i = Some \<lparr>name = ''SE 4'', index = i, num = 4\<rparr>" by (simp add: rx_eval)
lemma ex4: "pick ''Section 4a'' i = None" by (simp add: rx_eval)
lemma ex5: "pick ''foo sec 4'' i = None" by (simp add: rx_eval)

lemma bit_length_bounds: "0 < v \<Longrightarrow> v < 2 ^ bit_length v \<and> 2 ^ (bit_length v - 1) \<le> v"
proof (induction v rule: bit_length.induct)
  case (1 n)
  show ?case
  proof (cases "n div 2 = 0")
    case True
    with "1.prems" have "n = 1" by presburger
    then show ?thesis by (simp add: bit_length.simps)
  next
    case False
    then have pos: "0 < n div 2" by simp
    with "1.IH" "1.prems" have ih: "n div 2 < 2 ^ bit_length (n div 2)"
      "2 ^ (bit_length (n div 2) - 1) \<le> n div 2" by simp_all
    have bl: "bit_length n = Suc (bit_length (n div 2))"
      using "1.prems" by (subst bit_length.simps) simp
    have blpos: "0 < bit_length (n div 2)"
      using pos by (subst bit_length.simps) simp
    then obtain k where k: "bit_length (n div 2) = Suc k" by (cases "bit_length (n div 2)") auto
    from ih(1) have "n < 2 * 2 ^ bit_length (n div 2)" by presburger
    moreover from ih(2) k have "2 * 2 ^ k \<le> n" by simp
    ultimately show ?thesis using bl k by simp
  qed
qed

lemma to_double_overflow:
  assumes "2 ^ 1024 \<le> v"
  shows "to_double v = None"
proof -
  define L where "L = bit_length v"
  define e where "e = L - 53"
  define q where "q = v div 2 ^ e"
  have vpos: "0 < v" using assms by (simp add: order.strict_trans2 [OF _ assms])
  have "v < 2 ^ L" "2 ^ (L - 1) \<le> v"
    using bit_length_bounds [OF vpos] by (simp_all add: L_def)
  have "(2::nat) ^ 1024 < 2 ^ L" using assms \<open>v < 2 ^ L\<close> by (rule order.strict_trans1)
  then have L: "1024 < L" by (simp only: power_strict_increasing_iff one_less_numeral_iff semiring_norm)
  then have e: "972 \<le> e" by (simp add: e_def)
  have "L - 1 = 52 + e" using L by (simp add: e_def)
  then have "(2::nat) ^ 52 * 2 ^ e \<le> v" using \<open>2 ^ (L - 1) \<le> v\<close> by (simp add: power_add)
  then have q: "2 ^ 52 \<le> q" unfolding q_def by (simp add: less_eq_div_iff_mult_less_eq)
  have big: "(2::nat) ^ 1024 \<le> q' * 2 ^ e" if "q \<le> q'" for q'
  proof -
    have "(2::nat) ^ 1024 = 2 ^ 52 * 2 ^ 972" by (simp only: power_add [symmetric]) simp
    also have "\<dots> \<le> q' * 2 ^ e"
      using q that e by (intro mult_le_mono power_increasing) simp_all
    finally show ?thesis .
  qed
  have "\<not> v < 2 ^ 53" using assms by simp
  then show ?thesis
    unfolding to_double_def Let_def L_def [symmetric] e_def [symmetric] q_def [symmetric]
    using big [of q] big [of "q + 1"] by (simp add: not_less)
qed

lemma to_double_finite_iff: "to_double v \<noteq> None \<longleftrightarrow> v < 2 ^ 1024 - 2 ^ 970"
proof (cases "v < 2 ^ 53")
  case True
  then show ?thesis by (simp add: to_double_def)
next
  case False
  define L where "L = bit_length v"
  define e where "e = L - 53"
  define q where "q = v div 2 ^ e"
  define r where "r = v mod 2 ^ e"
  define q' where "q' = (if 2 ^ (e - 1) < r \<or> (r = 2 ^ (e - 1) \<and> odd q) then q + 1 else q)"
  have td: "to_double v = (if q' * 2 ^ e < 2 ^ 1024 then Some (q' * 2 ^ e) else None)"
    using False
    unfolding to_double_def Let_def L_def [symmetric] e_def [symmetric] q_def [symmetric]
      r_def [symmetric] q'_def [symmetric] by simp
  have vpos: "0 < v" using False by (cases "v = 0") simp_all
  have vL: "v < 2 ^ L" "2 ^ (L - 1) \<le> v"
    using bit_length_bounds [OF vpos] by (simp_all add: L_def)
  have "(2::nat) ^ 53 < 2 ^ L" using False vL(1) by simp
  then have L: "53 < L" by (simp only: power_strict_increasing_iff one_less_numeral_iff semiring_norm)
  have Le: "L = 53 + e" "L - 1 = 52 + e" "0 < e" using L by (simp_all add: e_def)
  have v: "v = q * 2 ^ e + r" unfolding q_def r_def by (rule div_mult_mod_eq [symmetric])
  have r: "r < 2 ^ e" by (simp add: r_def)
  have qlo: "2 ^ 52 \<le> q"
    using vL(2) unfolding q_def Le(2) by (simp add: less_eq_div_iff_mult_less_eq power_add)
  have qhi: "q < 2 ^ 53"
    using vL(1) unfolding q_def Le(1) by (simp add: less_mult_imp_div_less power_add)
  have q'bounds: "q \<le> q'" "q' \<le> q + 1" by (simp_all add: q'_def)
  consider "1024 < L" | "L < 1024" | "L = 1024" by linarith
  then show ?thesis
  proof cases
    case 1
    then have "(2::nat) ^ 1024 \<le> 2 ^ (L - 1)" by (intro power_increasing) simp_all
    then have "2 ^ 1024 \<le> v" using vL(2) by (rule order_trans)
    then have "to_double v = None" by (rule to_double_overflow)
    moreover have "\<not> v < 2 ^ 1024 - 2 ^ 970" using \<open>2 ^ 1024 \<le> v\<close> by simp
    ultimately show ?thesis by simp
  next
    case 2
    then have e: "e \<le> 970" by (simp add: e_def)
    have "q' * 2 ^ e \<le> 2 ^ 53 * 2 ^ 970"
      using q'bounds(2) qhi e by (intro mult_le_mono power_increasing) simp_all
    then have "q' * 2 ^ e < 2 ^ 1024" by simp
    moreover have "(2::nat) ^ L \<le> 2 ^ 1023" using 2 by (intro power_increasing) simp_all
    with vL(1) have "v < 2 ^ 1023" by (rule order.strict_trans2)
    ultimately show ?thesis by (simp add: td)
  next
    case 3
    then have e: "e = 971" by (simp add: e_def)
    have up: "q' = q + 1 \<longleftrightarrow> 2 ^ 970 \<le> r" if "q = 2 ^ 53 - 1"
      using that by (auto simp: q'_def e)
    show ?thesis
    proof (cases "q = 2 ^ 53 - 1 \<and> 2 ^ 970 \<le> r")
      case True
      then have "q' = 2 ^ 53" using up by simp
      then have "to_double v = None" by (simp add: td e)
      moreover have "\<not> v < 2 ^ 1024 - 2 ^ 970"
        using True unfolding v e by simp
      ultimately show ?thesis by simp
    next
      case False
      then consider "q < 2 ^ 53 - 1" | "q = 2 ^ 53 - 1" "r < 2 ^ 970"
        using qhi by force
      then show ?thesis
      proof cases
        case 1
        then have "q' < 2 ^ 53" using q'bounds(2) by simp
        then have "q' * 2 ^ 971 < 2 ^ 53 * 2 ^ 971" by simp
        then have a: "to_double v \<noteq> None" by (simp add: td e)
        have "v < (q + 1) * 2 ^ 971" using r unfolding v e by simp
        also have "\<dots> \<le> (2 ^ 53 - 1) * 2 ^ 971" using 1 by (intro mult_le_mono) simp_all
        also have "\<dots> < 2 ^ 1024 - 2 ^ 970" by simp
        finally show ?thesis using a by simp
      next
        case 2
        then have "q' = q" by (simp add: q'_def e)
        then have a: "to_double v \<noteq> None" using 2(1) by (simp add: td e)
        have "v < 2 ^ 1024 - 2 ^ 970" using 2 unfolding v e by simp
        then show ?thesis using a by simp
      qed
    qed
  qed
qed

lemma trim_id: "s \<noteq> [] \<Longrightarrow> \<not> isWhiteSpace (hd s) \<Longrightarrow> \<not> isWhiteSpace (last s) \<Longrightarrow> trim s = s"
proof -
  assume s: "s \<noteq> []" "\<not> isWhiteSpace (hd s)" "\<not> isWhiteSpace (last s)"
  then have 1: "dropWhile isWhiteSpace s = s" by (cases s) simp_all
  from s have "rev s \<noteq> []" "\<not> isWhiteSpace (hd (rev s))" by (simp_all add: hd_rev)
  then have 2: "dropWhile isWhiteSpace (rev s) = rev s" by (cases "rev s") simp_all
  show ?thesis by (simp add: trim_def 1 2)
qed

lemma foldl_zeros:
  "foldl (\<lambda>a c. 10 * a + digit_value c) a (replicate n (CHR ''0'')) = a * 10 ^ n"
  by (induction n arbitrary: a) (simp_all add: digit_value_def)

lemma digits_value_one_zeros: "digits_value (CHR ''1'' # replicate n (CHR ''0'')) = 10 ^ n"
proof -
  have "digit_value (CHR ''1'') = 1" by (simp add: digit_value_def)
  then show ?thesis by (simp add: digits_value_def foldl_zeros)
qed

lemma is_token_sec: "is_token ''sec''"
  by (simp only: is_token_def canon_words) simp

lemma big_section_text:
  "section_text (trim (''sec 1'' @ replicate n (CHR ''0''))) (CHR ''1'' # replicate n (CHR ''0''))"
proof -
  let ?s = "''sec 1'' @ replicate n (CHR ''0'')"
  have "last ?s = (if n = 0 then CHR ''1'' else CHR ''0'')" by (cases n) simp_all
  then have "\<not> isWhiteSpace (last ?s)" by (simp add: isWhiteSpace_def)
  moreover have "\<not> isWhiteSpace (hd ?s)" by (simp add: isWhiteSpace_def)
  ultimately have t: "trim ?s = ?s" by (intro trim_id) simp_all
  have d: "list_all isDigit (CHR ''1'' # replicate n (CHR ''0''))"
    by (simp add: list_all_iff isDigit_def)
  have w: "list_all isWhiteSpace '' ''" by (simp add: isWhiteSpace_def)
  have "?s = [] @ ''sec'' @ '' '' @ (CHR ''1'' # replicate n (CHR ''0'')) @ []" by simp
  with is_token_sec d w show ?thesis
    unfolding t section_text_def
    by (intro exI [of _ "[]"] exI [of _ "''sec''"] exI [of _ "'' ''"]) simp
qed

lemma sect4: "section_text (trim ''Section 4'') ''4''"
  by (simp only: rx_exec_iff [symmetric]) (simp add: rx_eval)

text \<open>
  C4.  The callback of \<^verbatim>\<open>parseNamedParts\<close> accepts a part name exactly when its trimmed text
  is one of the tokens sec/se/section in any letter case, optional white space, a decimal
  integer and nothing else, and the integer converts to a finite number (it is below
  \<open>2^1024 - 2^970\<close>); a number below \<open>2^53\<close> is kept exactly.  "Section 4", "sec4" and
  "SE 4" parse to section number 4; "Section 4a" and "foo sec 4" are not accepted.
\<close>

theorem section_recognizer:
  "(pick nm idx \<noteq> None \<longleftrightarrow>
      (\<exists>ds. section_text (trim nm) ds \<and> digits_value ds < 2 ^ 1024 - 2 ^ 970))
   \<and> (section_text (trim nm) ds \<and> digits_value ds < 2 ^ 53 \<longrightarrow>
        pick nm idx = Some \<lparr>name = nm, index = idx, num = digits_value ds\<rparr>)
   \<and> pick ''Section 4'' idx = Some \<lparr>name = ''Section 4'', index = idx, num = 4\<rparr>
   \<and> pick ''sec4'' idx = Some \<lparr>name = ''sec4'', index = idx, num = 4\<rparr>
   \<and> pick ''SE 4'' idx = Some \<lparr>name = ''SE 4'', index = idx, num = 4\<rparr>
   \<and> pick ''Section 4a'' idx = None
   \<and> pick ''foo sec 4'' idx = None"
proof -
  have a: "pick nm idx \<noteq> None \<longleftrightarrow>
      (\<exists>ds. section_text (trim nm) ds \<and> digits_value ds < 2 ^ 1024 - 2 ^ 970)"
    unfolding pick_None_iff to_double_finite_iff [symmetric] by simp
  have b: "pick nm idx = Some \<lparr>name = nm, index = idx, num = digits_value ds\<rparr>"
    if "section_text (trim nm) ds" "digits_value ds < 2 ^ 53"
  proof -
    from that(2) have "to_double (digits_value ds) = Some (digits_value ds)"
      by (simp add: to_double_def)
    with that(1) show ?thesis unfolding pick_iff by blast
  qed
  from a b ex1 ex2 ex3 ex4 ex5 show ?thesis by blast
qed

theorem section_recognizer_witness:
  "section_text (trim ''Section 4'') ''4'' \<and> digits_value ''4'' < 2 ^ 53
   \<and> pick ''Section 4'' 0 = Some \<lparr>name = ''Section 4'', index = 0, num = digits_value ''4''\<rparr>
   \<and> pick ''Section 4'' 0 \<noteq> None"
  using section_recognizer [of "''Section 4''" 0 "''4''"] sect4
  by (simp add: digits_value_def digit_value_def)

theorem section_recognizer_counterexample:
  "section_text (trim (''sec 1'' @ replicate 309 (CHR ''0''))) (CHR ''1'' # replicate 309 (CHR ''0''))
   \<and> pick (''sec 1'' @ replicate 309 (CHR ''0'')) 0 = None"
proof -
  let ?nm = "''sec 1'' @ replicate 309 (CHR ''0'')"
  let ?ds = "CHR ''1'' # replicate 309 (CHR ''0'')"
  have st: "section_text (trim ?nm) ?ds" by (rule big_section_text)
  have "(2::nat) ^ 1024 \<le> 10 ^ 309" by simp
  then have "to_double (digits_value ?ds) = None"
    unfolding digits_value_one_zeros by (rule to_double_overflow)
  moreover have "rx_exec (trim ?nm) = Some ?ds" using st by (simp only: rx_exec_iff)
  ultimately have "pick ?nm 0 = None" by (simp add: pick_def parseInt10_def)
  with st show ?thesis by blast
qed

section \<open>Properties of parseNamedParts\<close>

lemma set_insert_by: "set (insert_by cmp x ys) = insert x (set ys)"
  by (induction ys) auto

lemma set_array_sort: "set (array_sort cmp xs) = set xs"
  by (induction xs) (simp_all add: array_sort_def set_insert_by)

lemma length_insert_by: "length (insert_by cmp x ys) = Suc (length ys)"
  by (induction ys) auto

lemma length_array_sort: "length (array_sort cmp xs) = length xs"
  by (induction xs) (simp_all add: array_sort_def length_insert_by)

lemma lex_insert_by:
  "sorted_wrt lex_before ys \<Longrightarrow> (\<And>y. y \<in> set ys \<Longrightarrow> index x < index y) \<Longrightarrow>
   sorted_wrt lex_before (insert_by by_num x ys)"
proof (induction ys)
  case Nil
  show ?case by simp
next
  case (Cons y ys)
  show ?case
  proof (cases "by_num x y \<le> 0")
    case True
    then have xy: "num x \<le> num y" by (simp add: by_num_def)
    have "lex_before x z" if "z \<in> set (y # ys)" for z
    proof -
      have "index x < index z" using that Cons.prems(2) by blast
      moreover have "num y \<le> num z"
        using that Cons.prems(1) by (auto simp: lex_before_def)
      ultimately show ?thesis using xy by (auto simp: lex_before_def)
    qed
    with True Cons.prems(1) show ?thesis by simp
  next
    case False
    then have "num y < num x" by (simp add: by_num_def)
    then have "lex_before y x" by (simp add: lex_before_def)
    moreover have "sorted_wrt lex_before (insert_by by_num x ys)"
      using Cons by simp
    ultimately show ?thesis
      using False Cons.prems(1) by (auto simp: set_insert_by)
  qed
qed

lemma lex_array_sort:
  "sorted_wrt (\<lambda>a b. index a < index b) xs \<Longrightarrow> sorted_wrt lex_before (array_sort by_num xs)"
proof (induction xs)
  case Nil
  show ?case by (simp add: array_sort_def)
next
  case (Cons x xs)
  then have "sorted_wrt lex_before (array_sort by_num xs)" by simp
  moreover have "index x < index y" if "y \<in> set (array_sort by_num xs)" for y
    using that Cons.prems by (simp add: set_array_sort)
  ultimately have "sorted_wrt lex_before (insert_by by_num x (array_sort by_num xs))"
    by (rule lex_insert_by)
  then show ?case by (simp add: array_sort_def)
qed

lemma pick_index: "pick nm idx = Some p \<Longrightarrow> index p = idx \<and> name p = nm"
  by (auto simp: pick_def split: option.splits)

lemma picks_from:
  "sorted_wrt (\<lambda>a b. index a < index b) (List.map_filter (\<lambda>(idx, nm). pick nm idx) (enumerate n xs))
   \<and> (\<forall>p \<in> set (List.map_filter (\<lambda>(idx, nm). pick nm idx) (enumerate n xs)). n \<le> index p)"
proof (induction xs arbitrary: n)
  case Nil
  show ?case by (simp add: List.map_filter_simps)
next
  case (Cons x xs)
  have ih: "sorted_wrt (\<lambda>a b. index a < index b) (List.map_filter (\<lambda>(idx, nm). pick nm idx) (enumerate (Suc n) xs))"
    "\<And>p. p \<in> set (List.map_filter (\<lambda>(idx, nm). pick nm idx) (enumerate (Suc n) xs)) \<Longrightarrow> n < index p"
    using Cons [of "Suc n"] by (blast, auto simp: Suc_le_eq)
  show ?case
  proof (cases "pick x n")
    case None
    with ih show ?thesis by (auto simp: List.map_filter_simps dest: less_imp_le)
  next
    case (Some p)
    then have "index p = n" by (simp add: pick_index)
    with Some ih show ?thesis by (auto simp: List.map_filter_simps dest: less_imp_le)
  qed
qed

lemma picks_index_ascending: "sorted_wrt (\<lambda>a b. index a < index b) (picks allNames)"
  unfolding picks_def using picks_from [of 0 allNames] by blast

lemma set_picks:
  "set (picks allNames) = {p. \<exists>i < length allNames. pick (allNames ! i) i = Some p}"
proof -
  have "set (picks allNames) = {p. \<exists>x \<in> set (enumerate 0 allNames). (case x of (idx, nm) \<Rightarrow> pick nm idx) = Some p}"
    unfolding picks_def List.map_filter_def by force
  also have "\<dots> = {p. \<exists>i < length allNames. pick (allNames ! i) i = Some p}"
  proof (intro set_eqI iffI; clarify)
    fix p idx nm
    assume "(idx, nm) \<in> set (enumerate 0 allNames)" "pick nm idx = Some p"
    then show "\<exists>i<length allNames. pick (allNames ! i) i = Some p"
      by (auto simp: in_set_enumerate_eq)
  next
    fix p i
    assume "i < length allNames" "pick (allNames ! i) i = Some p"
    then have "(i, allNames ! i) \<in> set (enumerate 0 allNames)"
      "(case (i, allNames ! i) of (idx, nm) \<Rightarrow> pick nm idx) = Some p"
      by (simp_all add: in_set_enumerate_eq)
    then show "\<exists>x\<in>set (enumerate 0 allNames). (case x of (idx, nm) \<Rightarrow> pick nm idx) = Some p"
      by blast
  qed
  finally show ?thesis .
qed

lemma distinct_insert_by:
  "distinct (map f (insert_by cmp x ys)) \<longleftrightarrow> f x \<notin> f ` set ys \<and> distinct (map f ys)"
  by (induction ys) (auto simp: set_insert_by)

lemma distinct_array_sort: "distinct (map f (array_sort cmp xs)) \<longleftrightarrow> distinct (map f xs)"
proof (induction xs)
  case Nil
  show ?case by (simp add: array_sort_def)
next
  case (Cons x xs)
  have "array_sort cmp (x # xs) = insert_by cmp x (array_sort cmp xs)"
    by (simp add: array_sort_def)
  with Cons show ?case by (simp add: distinct_insert_by set_array_sort)
qed

lemma lex_sorted_num: "sorted_wrt lex_before xs \<Longrightarrow> sorted (map num xs)"
proof -
  assume "sorted_wrt lex_before xs"
  then have "sorted_wrt (\<lambda>a b. num a \<le> num b) xs"
    by (rule sorted_wrt_mono_rel [rotated]) (auto simp: lex_before_def)
  then show ?thesis by (simp add: sorted_map)
qed

lemmas parse_eval = parseNamedParts_def picks_def List.map_filter_simps
  array_sort_def by_num_def

lemma two_equal: "parseNamedParts [''sec 1'', ''sec 1''] =
    [\<lparr>name = ''sec 1'', index = 0, num = 1\<rparr>, \<lparr>name = ''sec 1'', index = 1, num = 1\<rparr>]"
  by (simp add: parse_eval rx_eval)

lemma two_swapped: "picks [''sec 2'', ''sec 1''] =
    [\<lparr>name = ''sec 2'', index = 0, num = 2\<rparr>, \<lparr>name = ''sec 1'', index = 1, num = 1\<rparr>]"
  by (simp add: parse_eval rx_eval)

text \<open>
  C5.  For every list of part names the named sections are in ascending (not necessarily
  strictly ascending) order of section number, sections with the same number are in the
  order of their positions in the list of names, and the result holds exactly the
  accepted names, each once; when the section numbers are distinct the order is strictly
  ascending.
\<close>

theorem named_sections_sorted:
  "sorted (map num (parseNamedParts allNames))
   \<and> sorted_wrt lex_before (parseNamedParts allNames)
   \<and> set (parseNamedParts allNames) = {p. \<exists>i < length allNames. pick (allNames ! i) i = Some p}
   \<and> distinct (map index (parseNamedParts allNames))
   \<and> (distinct (map num (picks allNames)) \<longrightarrow>
        sorted_wrt (<) (map num (parseNamedParts allNames)))"
proof -
  have lex: "sorted_wrt lex_before (parseNamedParts allNames)"
    unfolding parseNamedParts_def by (rule lex_array_sort) (rule picks_index_ascending)
  then have srt: "sorted (map num (parseNamedParts allNames))" by (rule lex_sorted_num)
  have st: "set (parseNamedParts allNames) = {p. \<exists>i < length allNames. pick (allNames ! i) i = Some p}"
    by (simp add: parseNamedParts_def set_array_sort set_picks)
  have "sorted_wrt (<) (map index (picks allNames))"
    using picks_index_ascending [of allNames] by (simp add: sorted_wrt_map)
  then have "distinct (map index (picks allNames))" by (simp add: strict_sorted_iff)
  then have di: "distinct (map index (parseNamedParts allNames))"
    by (simp add: parseNamedParts_def distinct_array_sort)
  have strict: "sorted_wrt (<) (map num (parseNamedParts allNames))"
    if "distinct (map num (picks allNames))"
  proof -
    from that have "distinct (map num (parseNamedParts allNames))"
      by (simp add: parseNamedParts_def distinct_array_sort)
    with srt show ?thesis by (simp add: strict_sorted_iff)
  qed
  from lex srt st di strict show ?thesis by blast
qed

theorem named_sections_sorted_witness:
  "distinct (map num (picks [''sec 2'', ''sec 1'']))
   \<and> sorted_wrt (<) (map num (parseNamedParts [''sec 2'', ''sec 1'']))
   \<and> sorted_wrt lex_before (parseNamedParts [''sec 2'', ''sec 1''])"
  using named_sections_sorted [of "[''sec 2'', ''sec 1'']"] by (simp add: two_swapped)

theorem named_sections_sorted_counterexample:
  "\<not> sorted_wrt (<) (map num (parseNamedParts [''sec 1'', ''sec 1'']))"
  by (simp add: two_equal)

section \<open>Properties of the material passes\<close>

lemma traverse_unfold: "traverse p = p # concat (map traverse (children p))"
  by (cases p) simp

lemma map_mesh_materials_sel [simp]:
  "obj_name (map_mesh_materials f p) = obj_name p"
  "obj_visible (map_mesh_materials f p) = obj_visible p"
  "isMesh (map_mesh_materials f p) = isMesh p"
  "geometryBox (map_mesh_materials f p) = geometryBox p"
  "obj_material (map_mesh_materials f p) = (if isMesh p then map f (obj_material p) else obj_material p)"
  "children (map_mesh_materials f p) = map (map_mesh_materials f) (children p)"
  by (cases p; simp)+

lemma traverse_map_mesh_materials:
  "traverse (map_mesh_materials f p) = map (map_mesh_materials f) (traverse p)"
proof (induction p)
  case (Object3D n v m mats g cs)
  have "map (traverse \<circ> map_mesh_materials f) cs = map (map (map_mesh_materials f) \<circ> traverse) cs"
    by (rule map_cong [OF refl]) (simp add: Object3D.IH)
  then have "concat (map traverse (map (map_mesh_materials f) cs))
      = map (map_mesh_materials f) (concat (map traverse cs))"
    by (simp only: map_map map_concat)
  then show ?case by simp
qed

lemma mesh_materials_map:
  "mesh_materials (map_mesh_materials f p) = map f (mesh_materials p)"
proof -
  have "filter isMesh (map (map_mesh_materials f) xs) = map (map_mesh_materials f) (filter isMesh xs)" for xs
    by (induction xs) simp_all
  moreover have "concat (map obj_material (map (map_mesh_materials f) xs)) = map f (concat (map obj_material xs))"
    if "list_all isMesh xs" for xs
    using that by (induction xs) simp_all
  ultimately show ?thesis
    by (simp add: mesh_materials_def traverse_map_mesh_materials list_all_iff)
qed

lemma set_visible_sel [simp]:
  "obj_name (set_visible b p) = obj_name p"
  "obj_visible (set_visible b p) = b"
  "isMesh (set_visible b p) = isMesh p"
  "obj_material (set_visible b p) = obj_material p"
  "children (set_visible b p) = children p"
  by (simp_all add: set_visible_def)

lemma mesh_materials_set_visible: "mesh_materials (set_visible b p) = mesh_materials p"
proof -
  have "traverse (set_visible b p) = set_visible b p # concat (map traverse (children p))"
    by (subst traverse_unfold) simp
  moreover have "traverse p = p # concat (map traverse (children p))"
    by (rule traverse_unfold)
  ultimately show ?thesis by (simp add: mesh_materials_def)
qed

lemma length_isolatePart [simp]: "length (isolatePart idx d ps) = length ps"
  by (simp add: isolatePart_def)

lemma nth_isolatePart:
  "i < length ps \<Longrightarrow>
   isolatePart idx d ps ! i =
     map_mesh_materials (isolate_apply idx i (max 0.08 (min 0.5 d))) (set_visible True (ps ! i))"
  by (simp add: isolatePart_def nth_enumerate_eq)

lemma isolatePart_materials:
  "i < length ps \<Longrightarrow>
   mesh_materials (isolatePart idx d ps ! i) =
     map (isolate_apply idx i (max 0.08 (min 0.5 d))) (mesh_materials (ps ! i))"
  by (simp add: nth_isolatePart mesh_materials_map mesh_materials_set_visible)

lemma isolate_apply_base [simp]: "base (isolate_apply idx i d m) = base m"
  by (simp add: isolate_apply_def base_def)

lemma isolate_apply_opacity:
  "opacity (isolate_apply idx i d m) =
     (if idx = None \<or> idx = Some (int i) then max 0.98 (base m) else d)"
  by (simp add: isolate_apply_def)

lemma wrap_base: "base (wrap m) = baseOpacity m" "opacity (wrap m) = baseOpacity m"
  by (simp_all add: wrap_def base_def)


lemma isolate_cycle_materials:
  assumes "i < length ps"
  shows "map opacity (mesh_materials (isolatePart None d3 (isolatePart idx d (isolatePart None d1 ps)) ! i))
           = map (\<lambda>m. max 0.98 (base m)) (mesh_materials (ps ! i))"
    and "map base (mesh_materials (isolatePart None d3 (isolatePart idx d (isolatePart None d1 ps)) ! i))
           = map base (mesh_materials (ps ! i))"
  using assms by (simp_all add: isolatePart_materials isolate_apply_opacity comp_def)

lemma mesh_materials_cloneMaterials:
  "mesh_materials (cloneMaterials p) = map wrap (mesh_materials p)"
  by (simp add: cloneMaterials_def mesh_materials_map)

text \<open>
  C2.  After \<open>Isolate(null)\<close>, \<open>Isolate(i, d)\<close>, \<open>Isolate(null)\<close> every material of every part
  has the opacity \<open>max(0.98, baseOpacity)\<close>, where \<open>baseOpacity\<close> is the opacity recorded
  for it at load time (1 when none is recorded), and the record itself is unchanged: the
  opacity is the recorded one exactly when that is at least 0.98.
\<close>

theorem isolate_round_trip:
  "map (map opacity \<circ> mesh_materials)
       (isolatePart None d3 (isolatePart (Some i) d (isolatePart None d1 ps)))
     = map (map (\<lambda>m. max 0.98 (base m)) \<circ> mesh_materials) ps
   \<and> map (map base \<circ> mesh_materials)
       (isolatePart None d3 (isolatePart (Some i) d (isolatePart None d1 ps)))
     = map (map base \<circ> mesh_materials) ps
   \<and> (list_all (\<lambda>m. 0.98 \<le> base m) (concat (map mesh_materials ps)) \<longrightarrow>
        map (map opacity \<circ> mesh_materials)
          (isolatePart None d3 (isolatePart (Some i) d (isolatePart None d1 ps)))
        = map (map base \<circ> mesh_materials) ps)
   \<and> map (map opacity \<circ> mesh_materials)
       (isolatePart None d3 (isolatePart (Some i) d (isolatePart None d1 (map cloneMaterials qs))))
     = map (map (\<lambda>m. max 0.98 (baseOpacity m)) \<circ> mesh_materials) qs"
proof -
  let ?cycle = "\<lambda>ps. isolatePart None d3 (isolatePart (Some i) d (isolatePart None d1 ps))"
  have a: "map (map opacity \<circ> mesh_materials) (?cycle ps)
      = map (map (\<lambda>m. max 0.98 (base m)) \<circ> mesh_materials) ps" for ps
    by (rule nth_equalityI) (simp_all add: isolate_cycle_materials)
  have b: "map (map base \<circ> mesh_materials) (?cycle ps) = map (map base \<circ> mesh_materials) ps"
    by (rule nth_equalityI) (simp_all add: isolate_cycle_materials)
  have c: "map (map opacity \<circ> mesh_materials) (?cycle ps) = map (map base \<circ> mesh_materials) ps"
    if "list_all (\<lambda>m. 0.98 \<le> base m) (concat (map mesh_materials ps))"
  proof -
    from that have "max 0.98 (base m) = base m" if "p \<in> set ps" "m \<in> set (mesh_materials p)" for p m
      using that by (auto simp: list_all_iff)
    then have "map (map (\<lambda>m. max 0.98 (base m)) \<circ> mesh_materials) ps = map (map base \<circ> mesh_materials) ps"
      by (intro map_cong) (simp_all cong: map_cong)
    with a [of ps] show ?thesis by simp
  qed
  have "map (map (\<lambda>m. max 0.98 (base m)) \<circ> mesh_materials) (map cloneMaterials qs)
      = map (map (\<lambda>m. max 0.98 (baseOpacity m)) \<circ> mesh_materials) qs"
    by (simp add: mesh_materials_cloneMaterials comp_def wrap_base)
  with a [of "map cloneMaterials qs"] have d:
    "map (map opacity \<circ> mesh_materials) (?cycle (map cloneMaterials qs))
      = map (map (\<lambda>m. max 0.98 (baseOpacity m)) \<circ> mesh_materials) qs"
    by simp
  from a [of ps] b c d show ?thesis by blast
qed

lemmas asset_eval = mat_def mesh_def group_obj_def isolatePart_def applyVisibilityMask_def
  cloneMaterials_def wrap_def baseOpacity_def base_def isolate_apply_def mask_use_def
  set_visible_def mesh_materials_def

theorem isolate_round_trip_witness:
  "list_all (\<lambda>m. 0.98 \<le> base m) (concat (map mesh_materials (map cloneMaterials [mesh ''a'' 1 None, mesh ''b'' 0.05 None])))
   \<and> map (map opacity \<circ> mesh_materials)
        (isolatePart None 0.01 (isolatePart (Some 0) 0.22 (isolatePart None 0.01
           (map cloneMaterials [mesh ''a'' 1 None, mesh ''b'' 0.05 None]))))
      = [[1], [1]]
   \<and> map (map base \<circ> mesh_materials) (map cloneMaterials [mesh ''a'' 1 None, mesh ''b'' 0.05 None])
      = [[1], [1]]"
  using isolate_round_trip [where ps = "map cloneMaterials [mesh ''a'' 1 None, mesh ''b'' 0.05 None]"
      and qs = "[]" and i = 0 and d = "0.22" and ?d1.0 = "0.01" and ?d3.0 = "0.01"]
  by (simp add: asset_eval)

theorem isolate_round_trip_counterexample:
  "map (map base \<circ> mesh_materials) (map cloneMaterials [mesh ''a'' 0.5 None, mesh ''b'' 1 None])
      = [[0.5], [1]]
   \<and> map (map opacity \<circ> mesh_materials) (map cloneMaterials [mesh ''a'' 0.5 None, mesh ''b'' 1 None])
      = [[0.5], [1]]
   \<and> map (map opacity \<circ> mesh_materials)
        (isolatePart None 0.01 (isolatePart (Some 1) 0.22 (isolatePart None 0.01
           (map cloneMaterials [mesh ''a'' 0.5 None, mesh ''b'' 1 None]))))
      = [[0.98], [1]]"
  by (simp add: asset_eval)

lemma tl_traverse: "tl (traverse p) = concat (map traverse (children p))"
  by (cases p) simp

lemma traverse_hd_tl: "traverse p = p # tl (traverse p)"
  by (cases p) simp

lemma traverse_set_visible: "traverse (set_visible b p) = set_visible b p # tl (traverse p)"
proof -
  have "traverse (set_visible b p) = set_visible b p # concat (map traverse (children (set_visible b p)))"
    by (rule traverse_unfold)
  then show ?thesis by (simp add: tl_traverse)
qed

lemma traverse_isolated:
  "traverse (map_mesh_materials h (set_visible b p))
     = map_mesh_materials h (set_visible b p) # map (map_mesh_materials h) (tl (traverse p))"
  by (simp add: traverse_map_mesh_materials traverse_set_visible)

lemma isolated_shape:
  "map (\<lambda>x. (obj_name x, isMesh x, geometryBox x, length (children x)))
       (traverse (map_mesh_materials h (set_visible b p)))
     = map (\<lambda>x. (obj_name x, isMesh x, geometryBox x, length (children x))) (traverse p)"
proof -
  have "map (\<lambda>x. (obj_name x, isMesh x, geometryBox x, length (children x))) (traverse p)
      = (obj_name p, isMesh p, geometryBox p, length (children p))
        # map (\<lambda>x. (obj_name x, isMesh x, geometryBox x, length (children x))) (tl (traverse p))"
    by (subst traverse_hd_tl) simp
  moreover have "geometryBox (set_visible b p) = geometryBox p" by (simp add: set_visible_def)
  ultimately show ?thesis by (simp add: traverse_isolated comp_def)
qed

lemma isolated_inner_visible:
  "tl (map obj_visible (traverse (map_mesh_materials h (set_visible b p))))
     = tl (map obj_visible (traverse p))"
  by (simp add: traverse_isolated comp_def map_tl)

lemma other_materials_map:
  "map obj_material (filter (\<lambda>x. \<not> isMesh x) (map (map_mesh_materials h) ys))
     = map obj_material (filter (\<lambda>x. \<not> isMesh x) ys)"
  by (induction ys) simp_all

lemma mesh_materials_map_list:
  "map obj_material (filter isMesh (map (map_mesh_materials h) ys))
     = map (map h \<circ> obj_material) (filter isMesh ys)"
  by (induction ys) simp_all

lemma isolated_other_materials:
  "map obj_material (filter (\<lambda>x. \<not> isMesh x) (traverse (map_mesh_materials h (set_visible b p))))
     = map obj_material (filter (\<lambda>x. \<not> isMesh x) (traverse p))"
proof -
  define R where "R = tl (traverse p)"
  have tp: "traverse p = p # R" unfolding R_def by (rule traverse_hd_tl)
  have ts: "traverse (set_visible b p) = set_visible b p # R"
    unfolding R_def by (rule traverse_set_visible)
  have "map obj_material (filter (\<lambda>x. \<not> isMesh x) (set_visible b p # R))
      = map obj_material (filter (\<lambda>x. \<not> isMesh x) (p # R))"
    by simp
  then show ?thesis
    by (simp only: traverse_map_mesh_materials other_materials_map ts tp)
qed

lemma isolated_mesh_materials:
  "map obj_material (filter isMesh (traverse (map_mesh_materials h (set_visible b p))))
     = map (map h \<circ> obj_material) (filter isMesh (traverse p))"
proof -
  define R where "R = tl (traverse p)"
  have tp: "traverse p = p # R" unfolding R_def by (rule traverse_hd_tl)
  have ts: "traverse (set_visible b p) = set_visible b p # R"
    unfolding R_def by (rule traverse_set_visible)
  have "map (map h \<circ> obj_material) (filter isMesh (set_visible b p # R))
      = map (map h \<circ> obj_material) (filter isMesh (p # R))"
    by simp
  then show ?thesis
    by (simp only: traverse_map_mesh_materials mesh_materials_map_list ts tp)
qed

text \<open>
  C6.  \<open>Isolate(index, dimOpacity)\<close> keeps the parts: their number, their names, the
  objects of their subtrees with names, geometry and children, the visible flags below the
  part and the materials of the objects that are no meshes are as before.  It makes every
  part visible (whatever its flag was before).  Of every material of every mesh of a part
  it sets \<open>transparent\<close>, \<open>depthWrite\<close> and \<open>colorWrite\<close> and leaves the recorded base
  opacity alone; the opacity becomes \<open>dimOpacity\<close> clamped to \<open>[0.08, 0.5]\<close> in every part
  other than a non-null \<open>index\<close>, and \<open>max(0.98, baseOpacity)\<close>, with the base opacity
  recorded for that material, in the part \<open>index\<close> (in every part when \<open>index\<close> is null).
  For parts as \<^verbatim>\<open>cloneMaterials\<close> leaves them at load time, \<open>baseOpacity\<close> is the one that
  \<^verbatim>\<open>cloneMaterials\<close> computed from the material of the asset.
\<close>

theorem isolate_effect:
  "length (isolatePart idx d ps) = length ps
   \<and> map obj_name (isolatePart idx d ps) = map obj_name ps
   \<and> list_all obj_visible (isolatePart idx d ps)
   \<and> map (map (\<lambda>x. (obj_name x, isMesh x, geometryBox x, length (children x))) \<circ> traverse)
        (isolatePart idx d ps)
      = map (map (\<lambda>x. (obj_name x, isMesh x, geometryBox x, length (children x))) \<circ> traverse) ps
   \<and> map (tl \<circ> map obj_visible \<circ> traverse) (isolatePart idx d ps)
      = map (tl \<circ> map obj_visible \<circ> traverse) ps
   \<and> map (map obj_material \<circ> filter (\<lambda>x. \<not> isMesh x) \<circ> traverse) (isolatePart idx d ps)
      = map (map obj_material \<circ> filter (\<lambda>x. \<not> isMesh x) \<circ> traverse) ps
   \<and> map (map obj_material \<circ> filter isMesh \<circ> traverse) (isolatePart idx d ps)
      = map (\<lambda>(i, p).
               map (map (\<lambda>m. m\<lparr>transparent := True,
                                 opacity := (if idx = None \<or> idx = Some (int i)
                                             then max 0.98 (base m) else max 0.08 (min 0.5 d)),
                                 depthWrite := True, colorWrite := True\<rparr>) \<circ> obj_material)
                 (filter isMesh (traverse p)))
          (enumerate 0 ps)
   \<and> (\<forall>i < length ps. \<forall>m \<in> set (mesh_materials (isolatePart idx d ps ! i)).
         opacity m = (if idx = None \<or> idx = Some (int i) then max 0.98 (base m)
                      else max 0.08 (min 0.5 d)))
   \<and> map (map opacity \<circ> mesh_materials) (isolatePart idx d (map cloneMaterials qs))
      = map (\<lambda>(i, q).
               map (\<lambda>m. if idx = None \<or> idx = Some (int i) then max 0.98 (baseOpacity m)
                         else max 0.08 (min 0.5 d))
                 (mesh_materials q))
          (enumerate 0 qs)
   \<and> 0.08 \<le> max 0.08 (min 0.5 d) \<and> max 0.08 (min 0.5 d) \<le> 0.5"
proof -
  have n: "map obj_name (isolatePart idx d ps) = map obj_name ps"
    by (rule nth_equalityI) (simp_all add: nth_isolatePart)
  have v: "list_all obj_visible (isolatePart idx d ps)"
    by (simp add: list_all_length nth_isolatePart)
  have s: "map (map (\<lambda>x. (obj_name x, isMesh x, geometryBox x, length (children x))) \<circ> traverse)
        (isolatePart idx d ps)
      = map (map (\<lambda>x. (obj_name x, isMesh x, geometryBox x, length (children x))) \<circ> traverse) ps"
    by (rule nth_equalityI) (simp_all add: nth_isolatePart isolated_shape)
  have iv: "map (tl \<circ> map obj_visible \<circ> traverse) (isolatePart idx d ps)
      = map (tl \<circ> map obj_visible \<circ> traverse) ps"
    by (rule nth_equalityI) (simp_all add: nth_isolatePart isolated_inner_visible)
  have om: "map (map obj_material \<circ> filter (\<lambda>x. \<not> isMesh x) \<circ> traverse) (isolatePart idx d ps)
      = map (map obj_material \<circ> filter (\<lambda>x. \<not> isMesh x) \<circ> traverse) ps"
    by (rule nth_equalityI) (simp_all add: nth_isolatePart isolated_other_materials)
  have mm: "map (map obj_material \<circ> filter isMesh \<circ> traverse) (isolatePart idx d ps)
      = map (\<lambda>(i, p).
               map (map (\<lambda>m. m\<lparr>transparent := True,
                                 opacity := (if idx = None \<or> idx = Some (int i)
                                             then max 0.98 (base m) else max 0.08 (min 0.5 d)),
                                 depthWrite := True, colorWrite := True\<rparr>) \<circ> obj_material)
                 (filter isMesh (traverse p)))
          (enumerate 0 ps)"
    by (rule nth_equalityI)
       (simp_all add: nth_isolatePart isolated_mesh_materials nth_enumerate_eq isolate_apply_def)
  have o: "opacity m = (if idx = None \<or> idx = Some (int i) then max 0.98 (base m)
                        else max 0.08 (min 0.5 d))"
    if "i < length ps" "m \<in> set (mesh_materials (isolatePart idx d ps ! i))" for i m
  proof -
    from that obtain x where "m = isolate_apply idx i (max 0.08 (min 0.5 d)) x"
      by (auto simp: isolatePart_materials)
    then show ?thesis by (simp only: isolate_apply_opacity isolate_apply_base)
  qed
  have ld: "map (map opacity \<circ> mesh_materials) (isolatePart idx d (map cloneMaterials qs))
      = map (\<lambda>(i, q).
               map (\<lambda>m. if idx = None \<or> idx = Some (int i) then max 0.98 (baseOpacity m)
                         else max 0.08 (min 0.5 d))
                 (mesh_materials q))
          (enumerate 0 qs)"
    by (rule nth_equalityI)
       (auto simp: isolatePart_materials mesh_materials_cloneMaterials nth_enumerate_eq
          isolate_apply_opacity wrap_base comp_def)
  from n v s iv om mm o ld show ?thesis by simp
qed

theorem isolate_effect_witness:
  "(1::nat) < length [mesh ''a'' 0.5 None, mesh ''b'' 1 None]
   \<and> mat 1 \<lparr>transparent := True, opacity := 0.08\<rparr>
        \<in> set (mesh_materials (isolatePart (Some 0) 0.01 [mesh ''a'' 0.5 None, mesh ''b'' 1 None] ! 1))
   \<and> opacity (mat 1 \<lparr>transparent := True, opacity := 0.08\<rparr>) = 0.08
   \<and> list_all obj_visible (isolatePart (Some 0) 0.01 [mesh ''a'' 0.5 None, mesh ''b'' 1 None])
   \<and> map (map opacity \<circ> mesh_materials)
        (isolatePart (Some 0) 0.01 (map cloneMaterials [mesh ''a'' 0.5 None, mesh ''b'' 1 None]))
      = [[0.98], [0.08]]"
  using isolate_effect [of "Some 0" "0.01" "[mesh ''a'' 0.5 None, mesh ''b'' 1 None]"
      "[mesh ''a'' 0.5 None, mesh ''b'' 1 None]"]
  by (simp add: asset_eval)

theorem isolate_effect_counterexample:
  "map obj_visible (applyVisibilityMask (Some [0]) [mesh ''a'' 1 None, mesh ''b'' 1 None]) = [True, False]
   \<and> map obj_visible (isolatePart None 0.22
        (applyVisibilityMask (Some [0]) [mesh ''a'' 1 None, mesh ''b'' 1 None])) = [True, True]"
  by (simp add: asset_eval)

section \<open>The example asset, loaded\<close>

lemmas load_eval = init_viewer_def bed_def no_scene_def loadGLB_def clear_previous_def
  clear_tables_def scene_root_def install_desktop_def install_mobile_def registry_desktop_def
  registry_mobile_def gatherParts_def hasMesh_def part_names_def add_animations_def add_clip_def
  new_action_def clipAction_def setLoop_def reset_def setEffectiveWeight_def
  setEffectiveTimeScale_def setFromObject_def promoteSectionNamesToParts_def Let_def
  set_property_def dadd_def dmul_def

lemma bed_desktop:
  "snd (loadGLB (Loaded bed) (init_viewer Desktop)) =
     \<lparr>variant = Desktop, scene = Some [group_obj ''Scene'' bed_parts], camera = True,
      controls = True, currentModel = Some (group_obj ''Scene'' bed_parts), pivot = None,
      parts = bed_parts, partNames = [''sec 1'', ''frame''],
      bbox = Some ((0, 0, 0), (4, 2, 6)), centroid = (2, 1, 3), target_desired = (0, 0, 0),
      mixer = True,
      actions = [(''explode'',
        \<lparr>time = 0, timeScale = 1, paused = True, enabled = True, loop = LoopOnce,
         clampWhenFinished = True, weight = 1, loopCount = - 1, scheduled = False,
         clip_duration = 2\<rparr>)],
      clipNames = [''explode''], clipDurations = [(''explode'', 2)], playbackSpeed = 1,
      explodeState = 0, explodedZoomApplied = False, zoomAnimRAF = None, dollyLog = []\<rparr>"
  by (simp add: load_eval asset_eval bed_parts_def)

section \<open>Properties of setOrbitTargetTo\<close>

text \<open>
  C10.  \<^verbatim>\<open>setOrbitTargetTo\<close> never signals an error for a null or integer index and changes
  nothing but the desired orbit target.  Without orbit controls it changes nothing at
  all; with them the target becomes the centroid when the index is null, negative or at
  least the number of parts, and the centre of the part's world bounding box otherwise.
\<close>

theorem orbit_target_total:
  "setOrbitTargetTo idx s =
     Inr (if controls s
          then s\<lparr>target_desired :=
                 (case idx of
                    None \<Rightarrow> centroid s
                  | Some i \<Rightarrow>
                      if i < 0 \<or> int (length (parts s)) \<le> i then centroid s
                      else getCenter (setFromObject (parts s ! nat i)))\<rparr>
          else s)"
proof (cases idx)
  case None
  then show ?thesis by (simp add: setOrbitTargetTo_def)
next
  case (Some i)
  have "nat i < length (parts s)" if "\<not> i < 0" "\<not> int (length (parts s)) \<le> i"
    using that by linarith
  with Some show ?thesis by (simp add: setOrbitTargetTo_def getPartWorldCenter_def)
qed

theorem orbit_target_total_witness:
  "target_desired (projr (setOrbitTargetTo (Some 1) (snd (loadGLB (Loaded bed) (init_viewer Desktop)))))
     = (3, 1, 3)
   \<and> centroid (snd (loadGLB (Loaded bed) (init_viewer Desktop))) = (2, 1, 3)
   \<and> target_desired (projr (setOrbitTargetTo (Some 2) (snd (loadGLB (Loaded bed) (init_viewer Desktop)))))
     = (2, 1, 3)"
  by (simp add: orbit_target_total bed_desktop)
     (simp add: bed_parts_def setFromObject_def dadd_def dmul_def)

theorem orbit_target_total_counterexample:
  "target_desired (dispose (projr (setOrbitTargetTo (Some 1)
      (snd (loadGLB (Loaded bed) (init_viewer Desktop)))))) = (3, 1, 3)
   \<and> centroid (dispose (projr (setOrbitTargetTo (Some 1)
      (snd (loadGLB (Loaded bed) (init_viewer Desktop)))))) = (2, 1, 3)
   \<and> setOrbitTargetTo None (dispose (projr (setOrbitTargetTo (Some 1)
      (snd (loadGLB (Loaded bed) (init_viewer Desktop))))))
     = Inr (dispose (projr (setOrbitTargetTo (Some 1)
         (snd (loadGLB (Loaded bed) (init_viewer Desktop))))))"
proof -
  let ?s = "snd (loadGLB (Loaded bed) (init_viewer Desktop))"
  have t: "target_desired (projr (setOrbitTargetTo (Some 1) ?s)) = (3, 1, 3)"
    by (simp add: setOrbitTargetTo_def getPartWorldCenter_def bed_desktop bed_parts_def
        setFromObject_def dadd_def dmul_def)
  have c: "centroid (projr (setOrbitTargetTo (Some 1) ?s)) = (2, 1, 3)"
    by (simp add: setOrbitTargetTo_def getPartWorldCenter_def bed_desktop bed_parts_def
        setFromObject_def dadd_def dmul_def)
  have d: "\<not> controls (dispose x)" "target_desired (dispose x) = target_desired x"
    "centroid (dispose x) = centroid x" for x
    by (simp_all add: dispose_def clear_tables_def)
  have e: "setOrbitTargetTo None (dispose x) = Inr (dispose x)" for x
    by (simp add: setOrbitTargetTo_def d)
  show ?thesis by (simp only: t c d e)
qed

section \<open>Properties of loadGLB\<close>

lemma clear_previous_tables:
  "parts (clear_previous sc s) = []" "partNames (clear_previous sc s) = []"
  "actions (clear_previous sc s) = []" "clipNames (clear_previous sc s) = []"
  "clipDurations (clear_previous sc s) = []" "\<not> mixer (clear_previous sc s)"
  "explodeState (clear_previous sc s) = 0" "\<not> explodedZoomApplied (clear_previous sc s)"
  "zoomAnimRAF (clear_previous sc s) = None"
  by (simp_all add: clear_previous_def clear_tables_def Let_def split: variant.splits option.splits)

lemma clear_previous_model:
  "variant s = Desktop \<Longrightarrow> currentModel (clear_previous sc s) = None"
  "variant s = Mobile \<Longrightarrow> currentModel (clear_previous sc s) = None \<and> pivot (clear_previous sc s) = None"
  by (simp_all add: clear_previous_def clear_tables_def Let_def split: option.splits)

lemma clear_previous_scene:
  "scene s = Some sc \<Longrightarrow> scene (clear_previous sc s) =
     Some (case variant s of
             Desktop \<Rightarrow> (case currentModel s of Some m \<Rightarrow> remove1 m sc | None \<Rightarrow> sc)
           | Mobile \<Rightarrow> (case pivot s of Some p \<Rightarrow> remove1 p sc | None \<Rightarrow> sc))"
  by (simp add: clear_previous_def clear_tables_def Let_def split: variant.splits option.splits)

text \<open>
  C1.  When the viewer has a scene and the new source has no usable scene root (or the
  loader fails), \<^verbatim>\<open>loadGLB\<close> rejects, and the previous asset is gone: the part list, the
  part names and the clip tables are empty, there is no mixer and no current model, the
  previous model has been removed from the scene, and the explode state is back at
  overview.  Without a scene \<^verbatim>\<open>loadGLB\<close> resolves and changes nothing.
\<close>

theorem load_failure_clears:
  "(scene s = None \<longrightarrow> loadGLB l s = (Resolved, s))
   \<and> (scene s = Some sc \<and> (l = LoadFailed \<or> (\<exists>g. l = Loaded g \<and> scene_root g = None)) \<longrightarrow>
        fst (loadGLB l s) = Rejected (if l = LoadFailed then LoaderFailed else NoScene)
        \<and> snd (loadGLB l s) = clear_previous sc s
        \<and> parts (snd (loadGLB l s)) = [] \<and> partNames (snd (loadGLB l s)) = []
        \<and> actions (snd (loadGLB l s)) = [] \<and> clipNames (snd (loadGLB l s)) = []
        \<and> clipDurations (snd (loadGLB l s)) = [] \<and> \<not> mixer (snd (loadGLB l s))
        \<and> currentModel (snd (loadGLB l s)) = None
        \<and> explodeState (snd (loadGLB l s)) = 0
        \<and> scene (snd (loadGLB l s)) =
            Some (case variant s of
                    Desktop \<Rightarrow> (case currentModel s of Some m \<Rightarrow> remove1 m sc | None \<Rightarrow> sc)
                  | Mobile \<Rightarrow> (case pivot s of Some p \<Rightarrow> remove1 p sc | None \<Rightarrow> sc)))"
proof -
  have a: "loadGLB l s = (Resolved, s)" if "scene s = None"
    using that by (simp add: loadGLB_def)
  have b: "loadGLB l s = (Rejected (if l = LoadFailed then LoaderFailed else NoScene), clear_previous sc s)"
    if "scene s = Some sc" "l = LoadFailed \<or> (\<exists>g. l = Loaded g \<and> scene_root g = None)"
    using that by (auto simp: loadGLB_def Let_def)
  have c: "currentModel (clear_previous sc s) = None"
    using clear_previous_model [of s sc] by (cases "variant s") simp_all
  show ?thesis
    using a b c clear_previous_tables [of sc s] clear_previous_scene [of s sc]
    by (simp del: split_paired_Ex)
qed

theorem load_failure_clears_witness:
  "scene (snd (loadGLB (Loaded bed) (init_viewer Desktop))) = Some [group_obj ''Scene'' bed_parts]
   \<and> scene_root no_scene = None
   \<and> fst (loadGLB (Loaded no_scene) (snd (loadGLB (Loaded bed) (init_viewer Desktop)))) = Rejected NoScene
   \<and> scene (snd (loadGLB (Loaded no_scene) (snd (loadGLB (Loaded bed) (init_viewer Desktop))))) = Some []"
  using load_failure_clears [of "snd (loadGLB (Loaded bed) (init_viewer Desktop))"
      "Loaded no_scene" "[group_obj ''Scene'' bed_parts]"]
  by (simp add: bed_desktop no_scene_def scene_root_def clear_previous_def clear_tables_def Let_def)

theorem load_failure_clears_counterexample:
  "parts (snd (loadGLB (Loaded bed) (init_viewer Desktop))) = bed_parts
   \<and> partNames (snd (loadGLB (Loaded bed) (init_viewer Desktop))) = [''sec 1'', ''frame'']
   \<and> clipNames (snd (loadGLB (Loaded bed) (init_viewer Desktop))) = [''explode'']
   \<and> scene (snd (loadGLB (Loaded bed) (init_viewer Desktop))) = Some [group_obj ''Scene'' bed_parts]
   \<and> fst (loadGLB (Loaded no_scene) (snd (loadGLB (Loaded bed) (init_viewer Desktop)))) = Rejected NoScene
   \<and> parts (snd (loadGLB (Loaded no_scene) (snd (loadGLB (Loaded bed) (init_viewer Desktop))))) = []
   \<and> partNames (snd (loadGLB (Loaded no_scene) (snd (loadGLB (Loaded bed) (init_viewer Desktop))))) = []
   \<and> clipNames (snd (loadGLB (Loaded no_scene) (snd (loadGLB (Loaded bed) (init_viewer Desktop))))) = []
   \<and> scene (snd (loadGLB (Loaded no_scene) (snd (loadGLB (Loaded bed) (init_viewer Desktop))))) = Some []"
  by (simp add: bed_desktop)
     (simp add: loadGLB_def clear_previous_def clear_tables_def no_scene_def scene_root_def Let_def)

section \<open>Properties of the section-name promotion\<close>

lemma trim_no_outer_space:
  "trim s = [] \<or> (\<not> isWhiteSpace (hd (trim s)) \<and> \<not> isWhiteSpace (last (trim s)))"
proof (cases "trim s = []")
  case True
  then show ?thesis by simp
next
  case False
  define t where "t = dropWhile isWhiteSpace s"
  define r where "r = dropWhile isWhiteSpace (rev t)"
  have ts: "trim s = rev r" by (simp add: trim_def t_def r_def)
  with False have r: "r \<noteq> []" by simp
  have h: "dropWhile isWhiteSpace xs = [] \<or> \<not> isWhiteSpace (hd (dropWhile isWhiteSpace xs))" for xs
    using hd_dropWhile [of isWhiteSpace xs] by blast
  from h [of "rev t"] r have "\<not> isWhiteSpace (hd r)" unfolding r_def by blast
  then have l: "\<not> isWhiteSpace (last (rev r))" using r by (simp add: last_rev)
  have "rev t = takeWhile isWhiteSpace (rev t) @ r" by (simp add: r_def)
  then have "rev (rev t) = rev (takeWhile isWhiteSpace (rev t) @ r)" by (rule arg_cong)
  then have t: "t = rev r @ rev (takeWhile isWhiteSpace (rev t))" by simp
  have "rev r \<noteq> []" using r by simp
  then have "hd (rev r @ rev (takeWhile isWhiteSpace (rev t))) = hd (rev r)" by (rule hd_append2)
  with t have hd: "hd t = hd (rev r)" by simp
  have "t \<noteq> []" using t r by auto
  with h [of s] have "\<not> isWhiteSpace (hd t)" unfolding t_def by blast
  with hd l show ?thesis by (simp add: ts)
qed

lemma trim_trim: "trim (trim s) = trim s"
proof (cases "trim s = []")
  case True
  have "trim [] = []" by (simp add: trim_def)
  with True show ?thesis by simp
next
  case False
  with trim_no_outer_space [of s] show ?thesis by (intro trim_id) auto
qed

lemma chosen_name_own:
  "rx_test (trim (obj_name p)) \<Longrightarrow> promote p = p"
proof -
  assume a: "rx_test (trim (obj_name p))"
  then have "chosen_name p = Some (obj_name p)" by (simp add: chosen_name_def)
  then show ?thesis by (cases p) (simp add: promote_def set_name_def)
qed

lemma filter_find:
  "List.find P xs = Some x \<Longrightarrow> \<exists>rest. filter P xs = x # rest"
  by (induction xs) (auto split: if_splits)

lemma rx_test_nonempty: "rx_test n \<Longrightarrow> n \<noteq> []"
proof
  assume "rx_test n" "n = []"
  then obtain d where "section_text [] d"
    by (auto simp: rx_test_def rx_exec_iff)
  then show False by (auto simp: section_text_def)
qed

lemma promote_descendant:
  assumes own: "\<not> rx_test (trim (obj_name p))"
    and fnd: "List.find (\<lambda>d. rx_test (trim (obj_name d))) (traverse p) = Some d"
  shows "promote p = set_name (trim (obj_name d)) p"
proof -
  let ?names = "map (\<lambda>d. trim (obj_name d)) (traverse p)"
  have eq: "filter (\<lambda>n. n \<noteq> [] \<and> rx_test n) ?names = filter rx_test ?names"
    by (rule filter_cong) (auto dest: rx_test_nonempty)
  have "filter rx_test ?names = map (\<lambda>d. trim (obj_name d)) (filter (\<lambda>d. rx_test (trim (obj_name d))) (traverse p))"
    by (simp add: filter_map comp_def)
  moreover obtain rest where "filter (\<lambda>d. rx_test (trim (obj_name d))) (traverse p) = d # rest"
    using filter_find [OF fnd] by blast
  ultimately have "filter rx_test ?names = trim (obj_name d) # map (\<lambda>d. trim (obj_name d)) rest"
    by simp
  then have "chosen_name p = Some (trim (obj_name d))"
    using own by (simp add: chosen_name_def eq)
  moreover have "rx_test (trim (obj_name d))"
    using fnd by (auto simp: find_Some_iff)
  then have "trim (obj_name d) \<noteq> []" by (rule rx_test_nonempty)
  ultimately show ?thesis by (simp add: promote_def)
qed

lemma promote_none:
  assumes "List.find (\<lambda>d. rx_test (trim (obj_name d))) (traverse p) = None"
  shows "promote p = p"
proof -
  from assms have all: "\<And>d. d \<in> set (traverse p) \<Longrightarrow> \<not> rx_test (trim (obj_name d))"
    by (simp add: find_None_iff)
  have "p \<in> set (traverse p)" by (subst traverse_unfold) simp
  then have own: "\<not> rx_test (trim (obj_name p))" using all by blast
  have "filter (\<lambda>n. n \<noteq> [] \<and> rx_test n) (map (\<lambda>d. trim (obj_name d)) (traverse p)) = []"
    using all by (auto simp: filter_empty_conv)
  then show ?thesis using own by (simp add: chosen_name_def promote_def)
qed


lemma last_dropWhile:
  "xs \<noteq> [] \<Longrightarrow> \<not> P (last xs) \<Longrightarrow> dropWhile P xs \<noteq> [] \<and> last (dropWhile P xs) = last xs"
  by (induction xs) (auto split: if_splits)

lemma hd_trim:
  assumes "s \<noteq> []" "\<not> isWhiteSpace (hd s)"
  shows "trim s \<noteq> [] \<and> hd (trim s) = hd s"
proof -
  from assms have d: "dropWhile isWhiteSpace s = s" by (cases s) simp_all
  from assms have "rev s \<noteq> []" "\<not> isWhiteSpace (last (rev s))" by (simp_all add: last_rev)
  then have "dropWhile isWhiteSpace (rev s) \<noteq> []"
    "last (dropWhile isWhiteSpace (rev s)) = last (rev s)"
    using last_dropWhile [of "rev s" isWhiteSpace] by blast+
  then show ?thesis using assms(1) by (simp add: trim_def d hd_rev last_rev)
qed

lemma is_token_hd: "is_token tok \<Longrightarrow> tok \<noteq> [] \<and> canonicalize (hd tok) = CHR ''S''"
  unfolding is_token_def by (cases tok) auto

lemma section_text_hd:
  assumes "section_text s d"
  shows "s \<noteq> [] \<and> (isWhiteSpace (hd s) \<or> canonicalize (hd s) = CHR ''S'')"
proof -
  from assms obtain w1 tok w2 w3 where h:
    "s = w1 @ tok @ w2 @ d @ w3" "list_all isWhiteSpace w1" "is_token tok"
    unfolding section_text_def by blast
  from h(3) have t: "tok \<noteq> []" "canonicalize (hd tok) = CHR ''S''" using is_token_hd by blast+
  show ?thesis
  proof (cases w1)
    case Nil
    with h(1) t show ?thesis by simp
  next
    case (Cons c cs)
    with h(1,2) show ?thesis by simp
  qed
qed

lemma part_label_no_section: "\<not> rx_test (trim (''Part '' @ x))"
proof
  assume "rx_test (trim (''Part '' @ x))"
  then obtain d where "section_text (trim (''Part '' @ x)) d"
    by (auto simp: rx_test_def rx_exec_iff)
  then have "isWhiteSpace (hd (trim (''Part '' @ x))) \<or> canonicalize (hd (trim (''Part '' @ x))) = CHR ''S''"
    using section_text_hd by blast
  moreover have "\<not> isWhiteSpace (CHR ''P'')" by (simp add: isWhiteSpace_def)
  then have "hd (trim (''Part '' @ x)) = CHR ''P''"
    using hd_trim [of "''Part '' @ x"] by simp
  ultimately show False by (simp add: isWhiteSpace_def canonicalize_def)
qed

lemma nth_part_names:
  "i < length ps \<Longrightarrow>
   part_names ps ! i = (if obj_name (ps ! i) \<noteq> [] then obj_name (ps ! i) else ''Part '' @ show_nat (i + 1))"
  by (simp add: part_names_def nth_enumerate_eq)

lemma set_name_sel [simp]: "obj_name (set_name n p) = n" "children (set_name n p) = children p"
  by (simp_all add: set_name_def)

lemmas promo_eval = crib_def group_obj_def mesh_def mat_def promote_def chosen_name_def set_name_def
  rx_test_def

lemma crib_promoted: "obj_name (promote crib) = ''sec 3''"
  by (simp add: promo_eval rx_eval)

lemma crib_names: "map obj_name (traverse crib) = [''bed'', '' sec 3'', ''m'', ''sec 4'']"
  by (simp add: crib_def group_obj_def mesh_def)

lemma crib_own: "\<not> rx_test (trim (obj_name crib))"
  by (simp add: promo_eval rx_eval)

text \<open>
  C9.  In the mobile viewer a part whose own trimmed name does not match the section
  pattern, and that has a descendant whose trimmed name matches, gets the trimmed name of
  the first such descendant (in depth-first order) before the part names are reported,
  so its reported name matches the pattern; every other part keeps its name.  The desktop
  viewer reports the parts' own names (or \<open>Part n\<close> for an empty name): a part whose own
  trimmed name does not match is not reported under a matching name.
\<close>

theorem section_promotion:
  "(\<not> rx_test (trim (obj_name p))
      \<and> List.find (\<lambda>d. rx_test (trim (obj_name d))) (traverse p) = Some d \<longrightarrow>
        promote p = set_name (trim (obj_name d)) p \<and> rx_test (trim (obj_name (promote p)))
        \<and> d \<in> set (traverse p) \<and> d \<noteq> p)
   \<and> (rx_test (trim (obj_name p))
        \<or> List.find (\<lambda>d. rx_test (trim (obj_name d))) (traverse p) = None \<longrightarrow> promote p = p)
   \<and> snd (registry_mobile pv rootObj) = part_names (map promote (gatherParts (Some pv) rootObj))
   \<and> (i < length ps \<and> \<not> rx_test (trim (obj_name (ps ! i)))
        \<and> List.find (\<lambda>d. rx_test (trim (obj_name d))) (traverse (ps ! i)) = Some d' \<longrightarrow>
        part_names (promoteSectionNamesToParts ps) ! i = trim (obj_name d')
        \<and> rx_test (trim (part_names (promoteSectionNamesToParts ps) ! i)))
   \<and> snd (registry_desktop rootObj) = part_names (gatherParts None rootObj)
   \<and> (i < length ps \<and> \<not> rx_test (trim (obj_name (ps ! i))) \<longrightarrow>
        \<not> rx_test (trim (part_names ps ! i)))"
proof -
  have m: "promote q = set_name (trim (obj_name e)) q \<and> rx_test (trim (obj_name (promote q)))
      \<and> e \<in> set (traverse q) \<and> e \<noteq> q"
    if own: "\<not> rx_test (trim (obj_name q))"
      and fnd: "List.find (\<lambda>d. rx_test (trim (obj_name d))) (traverse q) = Some e" for q e
  proof -
    have 1: "promote q = set_name (trim (obj_name e)) q" using own fnd by (rule promote_descendant)
    from fnd have 2: "rx_test (trim (obj_name e))" "e \<in> set (traverse q)"
      by (auto simp: find_Some_iff)
    with own have 3: "e \<noteq> q" by blast
    from 1 2 3 show ?thesis by (simp add: trim_trim)
  qed
  have k: "promote p = p"
    if "rx_test (trim (obj_name p)) \<or> List.find (\<lambda>d. rx_test (trim (obj_name d))) (traverse p) = None"
    using that chosen_name_own promote_none by blast
  have rm: "snd (registry_mobile pv rootObj) = part_names (map promote (gatherParts (Some pv) rootObj))"
    by (simp add: registry_mobile_def promoteSectionNamesToParts_def Let_def)
  have rd: "snd (registry_desktop rootObj) = part_names (gatherParts None rootObj)"
    by (simp add: registry_desktop_def Let_def)
  have pm: "part_names (promoteSectionNamesToParts ps) ! i = trim (obj_name d')
      \<and> rx_test (trim (part_names (promoteSectionNamesToParts ps) ! i))"
    if i: "i < length ps" and own: "\<not> rx_test (trim (obj_name (ps ! i)))"
      and fnd: "List.find (\<lambda>d. rx_test (trim (obj_name d))) (traverse (ps ! i)) = Some d'"
  proof -
    from m [OF own fnd] have "promote (ps ! i) = set_name (trim (obj_name d')) (ps ! i)"
      and n2: "rx_test (trim (obj_name (promote (ps ! i))))" by blast+
    then have "obj_name (promote (ps ! i)) = trim (obj_name d')" by simp
    note n = this n2
    from n(2) have "trim (obj_name (promote (ps ! i))) \<noteq> []" by (rule rx_test_nonempty)
    then have "obj_name (promote (ps ! i)) \<noteq> []" by (auto simp: trim_def)
    then have "part_names (promoteSectionNamesToParts ps) ! i = obj_name (promote (ps ! i))"
      using i by (simp add: nth_part_names promoteSectionNamesToParts_def)
    with n show ?thesis by simp
  qed
  have pd: "\<not> rx_test (trim (part_names ps ! i))"
    if "i < length ps" "\<not> rx_test (trim (obj_name (ps ! i)))"
  proof (cases "obj_name (ps ! i) = []")
    case True
    with that(1) have "part_names ps ! i = ''Part '' @ show_nat (i + 1)"
      by (simp only: nth_part_names) simp
    then show ?thesis by (simp only: part_label_no_section) simp
  next
    case False
    with that show ?thesis by (simp add: nth_part_names)
  qed
  from m [of p d] k rm rd pm pd show ?thesis by blast
qed

theorem section_promotion_witness:
  "\<not> rx_test (trim (obj_name crib))
   \<and> List.find (\<lambda>d. rx_test (trim (obj_name d))) (traverse crib) = Some (group_obj '' sec 3'' [mesh ''m'' 1 None])
   \<and> (0::nat) < length [crib] \<and> \<not> rx_test (trim (obj_name ([crib] ! 0)))
   \<and> part_names (promoteSectionNamesToParts [crib]) ! 0 = ''sec 3''
   \<and> rx_test (trim (part_names (promoteSectionNamesToParts [crib]) ! 0))
   \<and> \<not> rx_test (trim (part_names [crib] ! 0))"
proof -
  have f: "List.find (\<lambda>d. rx_test (trim (obj_name d))) (traverse crib) = Some (group_obj '' sec 3'' [mesh ''m'' 1 None])"
    by (simp add: promo_eval rx_eval)
  have t: "trim '' sec 3'' = ''sec 3''" by (simp add: trim_def isWhiteSpace_def)
  show ?thesis
    using section_promotion [of crib "group_obj '' sec 3'' [mesh ''m'' 1 None]" _ _ 0 "[crib]"
        "group_obj '' sec 3'' [mesh ''m'' 1 None]"] f crib_own
    by (simp add: group_obj_def t) (simp add: rx_test_def rx_eval)
qed

theorem section_promotion_counterexample:
  "\<not> rx_test (trim (obj_name crib))
   \<and> map obj_name (traverse crib) = [''bed'', '' sec 3'', ''m'', ''sec 4'']
   \<and> obj_name (promote crib) = ''sec 3''"
  using crib_own crib_names crib_promoted by simp

section \<open>Properties of setExplode\<close>



lemma snap_end_fields [simp]:
  "paused (snap_end d a)" "time (snap_end d a) = d" "enabled (snap_end d a)"
  "loop (snap_end d a) = LoopOnce" "clampWhenFinished (snap_end d a)"
  "timeScale (snap_end d a) = 1" "clip_duration (snap_end d a) = clip_duration a"
  "scheduled (snap_end d a) = scheduled a"
  by (simp_all add: snap_end_def setEffectiveTimeScale_def setEffectiveWeight_def reset_def setLoop_def)

lemma play_forward_fields [simp]:
  "\<not> paused (play_forward a)" "time (play_forward a) = 0" "enabled (play_forward a)"
  "loop (play_forward a) = LoopOnce" "clampWhenFinished (play_forward a)"
  "timeScale (play_forward a) = 1" "clip_duration (play_forward a) = clip_duration a"
  "scheduled (play_forward a)"
  by (simp_all add: play_forward_def play_def setEffectiveTimeScale_def setEffectiveWeight_def
      reset_def setLoop_def)

lemma for_each_action_sel [simp]:
  "actions (for_each_action f s) = map (\<lambda>(n, a). (n, f n a)) (actions s)"
  "mixer (for_each_action f s) = mixer s" "explodeState (for_each_action f s) = explodeState s"
  "explodedZoomApplied (for_each_action f s) = explodedZoomApplied s"
  "dollyLog (for_each_action f s) = dollyLog s" "clipDurations (for_each_action f s) = clipDurations s"
  "camera (for_each_action f s) = camera s" "controls (for_each_action f s) = controls s"
  "variant (for_each_action f s) = variant s" "playbackSpeed (for_each_action f s) = playbackSpeed s"
  by (simp_all add: for_each_action_def)

lemma applyExplodedZoom_sel [simp]:
  "actions (applyExplodedZoom s) = actions s" "mixer (applyExplodedZoom s) = mixer s"
  "explodedZoomApplied (applyExplodedZoom s)" "clipDurations (applyExplodedZoom s) = clipDurations s"
  "playbackSpeed (applyExplodedZoom s) = playbackSpeed s"
  by (simp_all add: applyExplodedZoom_def dollyScaleSmooth_def)



subsection \<open>The course of a clip\<close>


lemma track_stopped [simp]: "track d xs (t, True) = (t, True)"
  by (induction xs) simp_all




subsection \<open>The mixer on one-shot actions\<close>




lemma steps_actions [simp]: "steps (s\<lparr>actions := acts\<rparr>) dts = steps s dts"
  by (simp add: steps_def)










subsection \<open>loadGLB sets up consistent clip durations\<close>

lemma map_update_durations:
  "map (\<lambda>(n, a). (n, clip_duration a)) (AList.update k v xs)
     = AList.update k (clip_duration v) (map (\<lambda>(n, a). (n, clip_duration a)) xs)"
  by (induction xs) auto

lemma map_insert_key_durations:
  "map (\<lambda>(n, a). (n, clip_duration a)) (insert_key k v xs)
     = insert_key k (clip_duration v) (map (\<lambda>(n, a). (n, clip_duration a)) xs)"
  by (induction xs) auto

lemma keys_durations:
  "fst ` set (map (\<lambda>(n, a). (n, clip_duration a)) xs) = fst ` set xs"
  by (induction xs) auto

lemma map_set_property_durations:
  "map (\<lambda>(n, a). (n, clip_duration a)) (set_property k v xs)
     = set_property k (clip_duration v) (map (\<lambda>(n, a). (n, clip_duration a)) xs)"
  unfolding set_property_def keys_durations
  by (simp add: map_update_durations map_insert_key_durations)

lemma set_insert_key: "set (insert_key k v xs) = insert (k, v) (set xs)"
proof (induction xs)
  case Nil
  show ?case by simp
next
  case (Cons z xs)
  obtain k' v' where z: "z = (k', v')" by (cases z)
  show ?case unfolding z
    by (cases "is_array_index k \<and> (\<not> is_array_index k' \<or> digits_value k < digits_value k')")
       (simp_all add: Cons.IH insert_commute)
qed

lemma distinct_insert_key:
  "distinct (map fst xs) \<Longrightarrow> k \<notin> fst ` set xs \<Longrightarrow> distinct (map fst (insert_key k v xs))"
  by (induction xs) (auto simp: set_insert_key)

lemma set_update_subset: "set (AList.update k v xs) \<subseteq> insert (k, v) (set xs)"
  by (induction xs) auto

lemma set_set_property: "set (set_property k v xs) \<subseteq> insert (k, v) (set xs)"
  using set_update_subset [of k v xs] by (auto simp: set_property_def set_insert_key)

lemma distinct_set_property:
  "distinct (map fst xs) \<Longrightarrow> distinct (map fst (set_property k v xs))"
  by (simp add: set_property_def distinct_insert_key AList.distinct_update)

lemma new_action_duration [simp]: "clip_duration (new_action d) = d"
  by (simp add: new_action_def setEffectiveTimeScale_def setEffectiveWeight_def reset_def
      setLoop_def clipAction_def)

lemma tables_agree_add_clip:
  assumes "tables_agree s" "0 \<le> duration (snd ic)"
  shows "tables_agree (add_clip s ic)"
proof -
  let ?nm = "if clip_name (snd ic) \<noteq> [] then clip_name (snd ic) else ''Clip_'' @ show_nat (fst ic)"
  let ?d = "duration (snd ic)"
  have a: "actions (add_clip s ic) = set_property ?nm (new_action ?d) (actions s)"
    and c: "clipDurations (add_clip s ic) = set_property ?nm ?d (clipDurations s)"
    by (simp_all add: add_clip_def Let_def)
  have 1: "clipDurations (add_clip s ic) = map (\<lambda>(n, a). (n, clip_duration a)) (actions (add_clip s ic))"
    using assms(1) unfolding a c tables_agree_def by (simp add: map_set_property_durations)
  have 2: "distinct (map fst (actions (add_clip s ic)))"
    using assms(1) unfolding a tables_agree_def by (simp add: distinct_set_property)
  have 3: "list_all (\<lambda>(n, a). 0 \<le> clip_duration a) (actions (add_clip s ic))"
    using assms set_set_property [of ?nm "new_action ?d" "actions s"]
    unfolding a tables_agree_def list_all_iff by auto
  from 1 2 3 show ?thesis by (simp add: tables_agree_def)
qed

lemma tables_agree_foldl:
  "tables_agree s \<Longrightarrow> list_all (\<lambda>ic. 0 \<le> duration (snd ic)) ics \<Longrightarrow>
   tables_agree (foldl add_clip s ics)"
  by (induction ics arbitrary: s) (simp_all add: tables_agree_add_clip)

lemma tables_agree_consistent:
  assumes "tables_agree s"
  shows "durations_consistent s"
proof -
  have "dur s n a = clip_duration a \<and> 0 \<le> clip_duration a" if "(n, a) \<in> set (actions s)" for n a
  proof -
    from assms that have "map_of (actions s) n = Some a"
      by (simp add: tables_agree_def)
    then have "map_of (map (\<lambda>(n, a). (n, clip_duration a)) (actions s)) n = Some (clip_duration a)"
      by (simp add: map_of_map)
    with assms that show ?thesis
      by (auto simp: dur_def tables_agree_def list_all_iff)
  qed
  then show ?thesis by (auto simp: durations_consistent_def list_all_iff)
qed

lemma add_animations_consistent:
  assumes "actions s = []" "clipDurations s = []" "list_all (\<lambda>c. 0 \<le> duration c) cs"
  shows "durations_consistent (add_animations cs s)"
proof -
  have t: "tables_agree (s\<lparr>mixer := True\<rparr>)" using assms(1,2) by (simp add: tables_agree_def)
  have "list_all (\<lambda>ic. 0 \<le> duration (snd ic)) (enumerate 0 cs)"
    using assms(3) by (auto simp: list_all_iff in_set_enumerate_eq)
  with t have "tables_agree (foldl add_clip (s\<lparr>mixer := True\<rparr>) (enumerate 0 cs))"
    by (rule tables_agree_foldl)
  then have "tables_agree ((foldl add_clip (s\<lparr>mixer := True\<rparr>) (enumerate 0 cs))\<lparr>explodeState := 0\<rparr>)"
    by (simp add: tables_agree_def)
  moreover have "tables_agree s" using assms(1,2) by (simp add: tables_agree_def)
  ultimately have "tables_agree (add_animations cs s)" by (simp add: add_animations_def)
  then show ?thesis by (rule tables_agree_consistent)
qed

lemma loadGLB_consistent:
  assumes "scene s \<noteq> None" "scene_root g \<noteq> None" "list_all (\<lambda>c. 0 \<le> duration c) (animations g)"
  shows "fst (loadGLB (Loaded g) s) = Resolved \<and> durations_consistent (snd (loadGLB (Loaded g) s))"
proof -
  from assms(1,2) obtain sc r where sc: "scene s = Some sc" and r: "scene_root g = Some r" by auto
  let ?s1 = "clear_previous sc s"
  have e: "actions ?s1 = []" "clipDurations ?s1 = []"
    by (simp_all add: clear_previous_def clear_tables_def Let_def split: variant.splits option.splits)
  have d: "durations_consistent (install_desktop sc' g r ?s1)" for sc'
    unfolding install_desktop_def Let_def case_prod_unfold
    by (rule add_animations_consistent) (simp_all add: e assms(3))
  have m: "durations_consistent (install_mobile sc' g r ?s1)" for sc'
    unfolding install_mobile_def Let_def case_prod_unfold
    by (rule add_animations_consistent) (simp_all add: e assms(3))
  show ?thesis
    using d m by (cases "variant s") (simp_all add: loadGLB_def sc r Let_def)
qed

text \<open>
  A clip named \<^verbatim>\<open>__proto__\<close> gets no action: the viewer lists its name, and its table of
  actions stays empty.  A clip named \<^verbatim>\<open>7\<close> comes before the clips with other names.
\<close>

lemma add_clip_proto:
  "actions (add_clip s (i, \<lparr>clip_name = ''__proto__'', duration = d\<rparr>)) = actions s"
  "clipDurations (add_clip s (i, \<lparr>clip_name = ''__proto__'', duration = d\<rparr>)) = clipDurations s"
  "clipNames (add_clip s (i, \<lparr>clip_name = ''__proto__'', duration = d\<rparr>)) = clipNames s @ [''__proto__'']"
  by (simp_all add: add_clip_def set_property_def)

lemma add_clip_index:
  "map fst (actions (add_animations
      [\<lparr>clip_name = ''explode'', duration = 2\<rparr>, \<lparr>clip_name = ''7'', duration = 1\<rparr>]
      (init_viewer Desktop))) = [''7'', ''explode'']"
  by (simp add: add_animations_def add_clip_def set_property_def init_viewer_def is_array_index_def
      isDigit_def digits_value_def digit_value_def Let_def)



section \<open>Properties of the wheel gate\<close>

lemma cooldown_inv_mono: "cooldown_inv now s \<Longrightarrow> now \<le> t \<Longrightarrow> cooldown_inv t s"
  by (fastforce simp: cooldown_inv_def list_all_iff split: if_splits)

lemma cooldown_inv_onWheel:
  assumes "cooldown_inv now s" "now \<le> t"
  shows "cooldown_inv t (onWheel t dy m s)"
proof -
  have i: "cooldown_inv t s" using assms by (rule cooldown_inv_mono)
  show ?thesis
  proof (cases "m \<or> wheelCooldown s \<or> \<bar>dy\<bar> < 30")
    case True
    with i show ?thesis by (auto simp: onWheel_def cooldown_inv_def)
  next
    case False
    with i show ?thesis by (auto simp: onWheel_def cooldown_inv_def list_all_iff)
  qed
qed

lemma cooldown_inv_fire:
  assumes "cooldown_inv now s" "now \<le> t" "fire t s = Some s1"
  shows "cooldown_inv t s1"
proof -
  from assms(3) obtain due rest where d: "timers s = due # rest" "due \<le> t"
    "s1 = s\<lparr>wheelCooldown := False, timers := rest\<rparr>"
    by (auto simp: fire_def split: list.splits if_splits)
  with assms(1) have c: "wheelCooldown s" "due = last (accepted s) + 260" "rest = []"
    "list_all (\<lambda>a. a \<le> last (accepted s)) (accepted s)"
    by (auto simp: cooldown_inv_def split: if_splits)
  have "a + 260 \<le> t" if "a \<in> set (accepted s)" for a
    using that c(2,4) d(2) by (auto simp: list_all_iff)
  then show ?thesis using d(3) c(3) by (simp add: cooldown_inv_def list_all_iff)
qed

lemma cooldown_inv_run:
  "cooldown_inv now s \<Longrightarrow> run now evs s = Some (t, s') \<Longrightarrow> cooldown_inv t s' \<and> now \<le> t"
proof (induction evs arbitrary: now s)
  case Nil
  then show ?case by simp
next
  case (Cons e evs)
  obtain u ev where e: "e = (u, ev)" by (cases e)
  with Cons.prems(2) have u: "now \<le> u" by (auto split: if_splits)
  show ?case
  proof (cases ev)
    case (Wheel dy m)
    with Cons.prems(2) e u have "run u evs (onWheel u dy m s) = Some (t, s')" by simp
    moreover have "cooldown_inv u (onWheel u dy m s)"
      using Cons.prems(1) u by (rule cooldown_inv_onWheel)
    ultimately have "cooldown_inv t s' \<and> u \<le> t" by (rule Cons.IH [rotated])
    with u show ?thesis by simp
  next
    case Timeout
    with Cons.prems(2) e u obtain s1 where f: "fire u s = Some s1" "run u evs s1 = Some (t, s')"
      by (auto split: option.splits)
    have "cooldown_inv u s1" using Cons.prems(1) u f(1) by (rule cooldown_inv_fire)
    then have "cooldown_inv t s' \<and> u \<le> t" using f(2) by (rule Cons.IH)
    with u show ?thesis by simp
  qed
qed

lemma cooldown_inv_mounted: "cooldown_inv now (mounted np)"
  by (simp add: cooldown_inv_def mounted_def)

text \<open>
  C8.  After any run of wheel events and timer callbacks from the mounted component, a
  wheel event without a modifier key changes the stage only if its magnitude is at least
  30 and every accepted wheel event lies at least 260 ms back; an event of smaller
  magnitude, or one within 260 ms of an accepted one, changes nothing.  An accepted event
  advances the stage for a positive \<open>deltaY\<close> and retreats it otherwise.  In particular a
  \<open>deltaY = 50\<close> event 100 ms after an accepted one is ignored.
\<close>

theorem wheel_gate:
  assumes "run t0 evs (mounted np) = Some (now, s)" "now \<le> t"
  shows "(stage (onWheel t dy False s) \<noteq> stage s \<longrightarrow>
            30 \<le> \<bar>dy\<bar> \<and> list_all (\<lambda>a. a + 260 \<le> t) (accepted s))
         \<and> (\<bar>dy\<bar> < 30 \<or> list_ex (\<lambda>a. t < a + 260) (accepted s) \<longrightarrow> onWheel t dy False s = s)
         \<and> (onWheel t dy False s \<noteq> s \<longrightarrow>
              stage (onWheel t dy False s) =
                (if 0 < dy then nextStage (namedParts s) (stage s)
                 else prevStage (namedParts s) (stage s)))
         \<and> onWheel 100 50 False (onWheel 0 50 False (mounted np)) = onWheel 0 50 False (mounted np)
         \<and> stage (onWheel 0 50 False (mounted np)) = nextStage np 0"
proof -
  from cooldown_inv_run [OF cooldown_inv_mounted assms(1)] have "cooldown_inv now s" by simp
  then have i: "cooldown_inv t s" using assms(2) by (rule cooldown_inv_mono)
  have a: "30 \<le> \<bar>dy\<bar> \<and> list_all (\<lambda>a. a + 260 \<le> t) (accepted s)"
    if "stage (onWheel t dy False s) \<noteq> stage s"
  proof -
    from that have "\<not> wheelCooldown s" "\<not> \<bar>dy\<bar> < 30"
      by (auto simp: onWheel_def split: if_splits)
    with i show ?thesis by (simp add: cooldown_inv_def)
  qed
  have b: "onWheel t dy False s = s" if "\<bar>dy\<bar> < 30 \<or> list_ex (\<lambda>a. t < a + 260) (accepted s)"
  proof (cases "wheelCooldown s")
    case True
    then show ?thesis by (simp add: onWheel_def)
  next
    case False
    with i have "list_all (\<lambda>a. a + 260 \<le> t) (accepted s)" by (simp add: cooldown_inv_def)
    then have "\<not> list_ex (\<lambda>a. t < a + 260) (accepted s)"
      by (auto simp: list_all_iff list_ex_iff)
    with that show ?thesis by (simp add: onWheel_def)
  qed
  have c: "stage (onWheel t dy False s) =
      (if 0 < dy then nextStage (namedParts s) (stage s) else prevStage (namedParts s) (stage s))"
    if "onWheel t dy False s \<noteq> s"
    using that by (auto simp: onWheel_def split: if_splits)
  have d: "onWheel 100 50 False (onWheel 0 50 False (mounted np)) = onWheel 0 50 False (mounted np)"
    "stage (onWheel 0 50 False (mounted np)) = nextStage np 0"
    by (simp_all add: onWheel_def mounted_def)
  from a b c d show ?thesis by blast
qed

theorem wheel_gate_witness:
  "run 0 [(0, Wheel 50 False), (100, Wheel 50 False), (270, Timeout), (300, Wheel (- 40) False)] (mounted [])
     = Some (300, \<lparr>stage = 0, namedParts = [], wheelCooldown = True, timers = [560],
                   dollyCalls = [], accepted = [0, 300]\<rparr>)
   \<and> run 0 [(0, Wheel 50 False)] (mounted []) = Some (0, onWheel 0 50 False (mounted []))
   \<and> (0::real) \<le> 100
   \<and> list_ex (\<lambda>a. 100 < a + 260) (accepted (onWheel 0 50 False (mounted [])))
   \<and> onWheel 100 50 False (onWheel 0 50 False (mounted [])) = onWheel 0 50 False (mounted [])
   \<and> stage (onWheel 0 50 False (mounted [])) = 1"
proof -
  have r: "run 0 [(0, Wheel 50 False)] (mounted []) = Some (0, onWheel 0 50 False (mounted []))"
    by simp
  have e: "run 0 [(0, Wheel 50 False), (100, Wheel 50 False), (270, Timeout), (300, Wheel (- 40) False)] (mounted [])
     = Some (300, \<lparr>stage = 0, namedParts = [], wheelCooldown = True, timers = [560],
                   dollyCalls = [], accepted = [0, 300]\<rparr>)"
    by (simp add: onWheel_def mounted_def fire_def nextStage_def prevStage_def loopIndex_def
        totalStages_def js_rem_def)
  have n: "nextStage [] 0 = 1"
    by (simp add: nextStage_def loopIndex_def totalStages_def js_rem_def)
  have x: "list_ex (\<lambda>a. 100 < a + 260) (accepted (onWheel 0 50 False (mounted [])))"
    by (simp add: onWheel_def mounted_def)
  from wheel_gate [OF r, of 100 50] e r n x show ?thesis by simp
qed

end
